theory Spec2Isabelle
  imports Main "HOL-Library.Multiset"
begin

section \<open>Python values and text\<close>

text \<open>
  Participant ids and display names are dynamically typed in the script: an agency id is
  whatever the document store holds (text typed into the form, in practice), while
  \<open>describe_cycles\<close> tests for the integer \<open>0\<close>. Both kinds of value are kept, and
  an integer never equals a text, as in Python.
\<close>

datatype pyval = PyInt int | PyStr string

text \<open>
  Python raises \<open>KeyError\<close> when a dictionary lacks the key that is indexed: a field
  name of an asset record, or a participant id looked up in \<open>request_map\<close>.
\<close>

datatype error = KeyError_field string | KeyError_id pyval

text \<open>
  Text is a list of characters. \<open>str.strip\<close>, \<open>str.upper\<close> and \<open>str.lower\<close> are
  modelled on the ASCII range: the white space of \<open>strip\<close> is the code points 9 to 13
  and 28 to 32, the letters are \<open>a\<close> to \<open>z\<close> and \<open>A\<close> to \<open>Z\<close>; every other
  character is left as it is.
\<close>

definition is_space :: "char \<Rightarrow> bool" where
  "is_space c = (let n = (of_char c :: nat) in (9 \<le> n \<and> n \<le> 13) \<or> (28 \<le> n \<and> n \<le> 32))"

definition is_lower :: "char \<Rightarrow> bool" where
  "is_lower c = (let n = (of_char c :: nat) in 97 \<le> n \<and> n \<le> 122)"

definition is_upper :: "char \<Rightarrow> bool" where
  "is_upper c = (let n = (of_char c :: nat) in 65 \<le> n \<and> n \<le> 90)"

definition upper_char :: "char \<Rightarrow> char" where
  "upper_char c = (if is_lower c then char_of ((of_char c :: nat) - 32) else c)"

definition lower_char :: "char \<Rightarrow> char" where
  "lower_char c = (if is_upper c then char_of ((of_char c :: nat) + 32) else c)"

definition strip :: "string \<Rightarrow> string" where
  "strip s = rev (dropWhile is_space (rev (dropWhile is_space s)))"

definition upper :: "string \<Rightarrow> string" where
  "upper s = map upper_char s"

definition lower :: "string \<Rightarrow> string" where
  "lower s = map lower_char s"

text \<open>Decimal rendering of an integer, as \<open>str\<close> and the f-string do it.\<close>

fun digits :: "nat \<Rightarrow> string" where
  "digits n = (if n < 10 then [char_of (48 + n)] else digits (n div 10) @ [char_of (48 + n mod 10)])"

declare digits.simps [simp del]

definition py_str :: "pyval \<Rightarrow> string" where
  "py_str v = (case v of
     PyStr s \<Rightarrow> s
   | PyInt i \<Rightarrow> (if i < 0 then CHR ''-'' # digits (nat (- i)) else digits (nat i)))"

section \<open>Asset and participant records\<close>

text \<open>
  An asset record is a dictionary of spreadsheet columns. The script reads three keys:
  \<open>MODELO\<close>, \<open>VERSION\<close> and \<open>full_name\<close>; a key that is absent is \<open>None\<close>.
\<close>

record asset =
  full_name :: "string option"
  MODELO :: "string option"
  VERSION :: "string option"

record request =
  req_id :: pyval
  req_name :: pyval
  offers :: "asset list"
  wants :: "asset list"
  status :: string

record upload =
  up_offers :: "asset list"
  up_wants :: "asset list"

record user_doc =
  agency_id :: pyval
  user_name :: "pyval option"
  uploads :: "upload list"

text \<open>
  Lines 55 to 60 of the loader: an entry without \<open>full_name\<close> that has both \<open>MODELO\<close>
  and \<open>VERSION\<close> gets its identity key; any other entry is left untouched.
\<close>

definition add_full_name :: "asset \<Rightarrow> asset" where
  "add_full_name a =
     (case full_name a of
        Some k \<Rightarrow> a
      | None \<Rightarrow>
          (case MODELO a of
             None \<Rightarrow> a
           | Some m \<Rightarrow>
               (case VERSION a of
                  None \<Rightarrow> a
                | Some v \<Rightarrow> a\<lparr>full_name := Some (upper (strip m) @ '' - '' @ upper (strip v))\<rparr>)))"

text \<open>
  \<open>load_all_requests_from_mongo\<close>, from the documents that \<open>find\<close> returned: one
  request per upload of each user. The time stamp \<open>created_at\<close> is not read by the
  matching and is left out.
\<close>

definition request_of_upload :: "user_doc \<Rightarrow> upload \<Rightarrow> request" where
  "request_of_upload user up =
     \<lparr>req_id = agency_id user,
      req_name = (case user_name user of Some n \<Rightarrow> n | None \<Rightarrow> agency_id user),
      offers = map add_full_name (up_offers up),
      wants = map add_full_name (up_wants up),
      status = ''pending''\<rparr>"

definition load_all_requests :: "user_doc list \<Rightarrow> request list" where
  "load_all_requests participants =
     concat (map (\<lambda>user. map (request_of_upload user) (uploads user)) participants)"

section \<open>The demand graph\<close>

text \<open>
  A \<open>networkx.DiGraph\<close> keeps its nodes and, per node, its successors in insertion
  order. The node list and the edge list below are in that order and hold no duplicate.
\<close>

record digraph =
  nodes :: "pyval list"
  edges :: "(pyval \<times> pyval) list"

definition empty_graph :: digraph where
  "empty_graph = \<lparr>nodes = [], edges = []\<rparr>"

definition add_node :: "pyval \<Rightarrow> digraph \<Rightarrow> digraph" where
  "add_node n G = (if n \<in> set (nodes G) then G else G\<lparr>nodes := nodes G @ [n]\<rparr>)"

definition add_edge :: "pyval \<Rightarrow> pyval \<Rightarrow> digraph \<Rightarrow> digraph" where
  "add_edge u v G =
     (let G' = add_node v (add_node u G)
      in if (u, v) \<in> set (edges G') then G' else G'\<lparr>edges := edges G' @ [(u, v)]\<rparr>)"

definition successors :: "digraph \<Rightarrow> pyval \<Rightarrow> pyval list" where
  "successors G n = map snd (filter (\<lambda>e. fst e = n) (edges G))"

text \<open>
  The comparison \<open>o['full_name'].lower() == w['full_name'].lower()\<close>: the left operand
  is evaluated first, and either index raises when the key is missing.
\<close>

definition names_match :: "asset \<Rightarrow> asset \<Rightarrow> error + bool" where
  "names_match ofr wnt =
     (case full_name ofr of
        None \<Rightarrow> Inl (KeyError_field ''full_name'')
      | Some a \<Rightarrow>
          (case full_name wnt of
             None \<Rightarrow> Inl (KeyError_field ''full_name'')
           | Some b \<Rightarrow> Inr (lower a = lower b)))"

text \<open>
  \<open>any(... for o in offers for w in wants)\<close>: the pairs are visited offer by offer,
  want by want, up to the first pair that matches.
\<close>

fun any_match :: "(asset \<times> asset) list \<Rightarrow> error + bool" where
  "any_match [] = Inr False"
| "any_match ((ofr, wnt) # ps) =
     (case names_match ofr wnt of
        Inl e \<Rightarrow> Inl e
      | Inr b \<Rightarrow> (if b then Inr True else any_match ps))"

fun add_nodes_loop :: "request list \<Rightarrow> digraph \<Rightarrow> digraph" where
  "add_nodes_loop [] G = G"
| "add_nodes_loop (req # reqs) G = add_nodes_loop reqs (add_node (req_id req) G)"

fun edges_inner_loop :: "request \<Rightarrow> request list \<Rightarrow> digraph \<Rightarrow> error + digraph" where
  "edges_inner_loop req_a [] G = Inr G"
| "edges_inner_loop req_a (req_b # reqs) G =
     (if req_id req_a = req_id req_b then edges_inner_loop req_a reqs G
      else (case any_match (List.product (offers req_a) (wants req_b)) of
              Inl e \<Rightarrow> Inl e
            | Inr b \<Rightarrow>
                edges_inner_loop req_a reqs
                  (if b then add_edge (req_id req_a) (req_id req_b) G else G)))"

fun edges_outer_loop :: "request list \<Rightarrow> request list \<Rightarrow> digraph \<Rightarrow> error + digraph" where
  "edges_outer_loop [] requests G = Inr G"
| "edges_outer_loop (req_a # reqs) requests G =
     (case edges_inner_loop req_a requests G of
        Inl e \<Rightarrow> Inl e
      | Inr G' \<Rightarrow> edges_outer_loop reqs requests G')"

definition build_graph :: "request list \<Rightarrow> error + digraph" where
  "build_graph requests = edges_outer_loop requests requests (add_nodes_loop requests empty_graph)"

section \<open>The conflict check\<close>

type_synonym request_map = "pyval \<rightharpoonup> request"

type_synonym offer_keys = "(pyval \<times> string) set"

text \<open>
  Lines 91 to 97, for one giver and one receiver: every offer and want pair is visited;
  a pair that matches either finds its key in \<open>used_offers\<close> (the check returns
  \<open>True\<close> at once) or adds it. The set is mutated in place, so the caller sees the
  keys added so far whatever the outcome.
\<close>

fun mark_matches :: "pyval \<Rightarrow> (asset \<times> asset) list \<Rightarrow> offer_keys \<Rightarrow> error + (bool \<times> offer_keys)" where
  "mark_matches giver_id [] used = Inr (False, used)"
| "mark_matches giver_id ((ofr, wnt) # ps) used =
     (case names_match ofr wnt of
        Inl e \<Rightarrow> Inl e
      | Inr b \<Rightarrow>
          (if b then
             (let key = (giver_id, the (full_name ofr))
              in if key \<in> used then Inr (True, used)
                 else mark_matches giver_id ps (insert key used))
           else mark_matches giver_id ps used))"

fun violates_offer_conflict :: "pyval list \<Rightarrow> request_map \<Rightarrow> offer_keys \<Rightarrow> error + (bool \<times> offer_keys)" where
  "violates_offer_conflict (giver_id # receiver_id # rest) request_map used =
     (case request_map giver_id of
        None \<Rightarrow> Inl (KeyError_id giver_id)
      | Some giver \<Rightarrow>
          (case request_map receiver_id of
             None \<Rightarrow> Inl (KeyError_id receiver_id)
           | Some receiver \<Rightarrow>
               (case mark_matches giver_id (List.product (offers giver) (wants receiver)) used of
                  Inl e \<Rightarrow> Inl e
                | Inr (conflict, used') \<Rightarrow>
                    (if conflict then Inr (True, used')
                     else violates_offer_conflict (receiver_id # rest) request_map used'))))"
| "violates_offer_conflict [p] request_map used = Inr (False, used)"
| "violates_offer_conflict [] request_map used = Inr (False, used)"

section \<open>The state of a run, and the acceptance step shared by both strategies\<close>

record search_state =
  all_cycles :: "pyval list list"
  used_nodes :: "pyval set"
  used_offers :: offer_keys

definition initial_state :: search_state where
  "initial_state = \<lparr>all_cycles = [], used_nodes = {}, used_offers = {}\<rparr>"

text \<open>
  Lines 111 to 114 and 131 to 134: a candidate with a node that is already used is
  skipped without calling the check; otherwise the check runs (and mutates
  \<open>used_offers\<close>), and the candidate is appended when the check returns \<open>False\<close>.
\<close>

definition consider_cycle :: "request_map \<Rightarrow> pyval list \<Rightarrow> search_state \<Rightarrow> error + search_state" where
  "consider_cycle request_map cycle st =
     (if list_ex (\<lambda>p. p \<in> used_nodes st) cycle then Inr st
      else (case violates_offer_conflict cycle request_map (used_offers st) of
              Inl e \<Rightarrow> Inl e
            | Inr (conflict, used') \<Rightarrow>
                (if conflict then Inr (st\<lparr>used_offers := used'\<rparr>)
                 else Inr \<lparr>all_cycles = all_cycles st @ [cycle],
                           used_nodes = used_nodes st \<union> set cycle,
                           used_offers = used'\<rparr>)))"

section \<open>The graph library\<close>

text \<open>
  \<open>nx.connected_components(G.to_undirected())\<close>: the nodes are visited in order; a
  node not yet seen yields its component, the nodes joined to it by edges taken in
  either direction. A component is a Python set; it is listed here in the order of the
  graph's nodes. None of the properties proved below depends on that order.
\<close>

definition undirected_edges :: "digraph \<Rightarrow> (pyval \<times> pyval) list" where
  "undirected_edges G = edges G @ map prod.swap (edges G)"

definition plain_bfs :: "digraph \<Rightarrow> pyval \<Rightarrow> pyval list" where
  "plain_bfs G v = filter (\<lambda>m. m = v \<or> (v, m) \<in> trancl (set (undirected_edges G))) (nodes G)"

fun components_loop :: "digraph \<Rightarrow> pyval list \<Rightarrow> pyval set \<Rightarrow> pyval list list" where
  "components_loop G [] seen = []"
| "components_loop G (v # vs) seen =
     (if v \<in> seen then components_loop G vs seen
      else (let c = plain_bfs G v in c # components_loop G vs (seen \<union> set c)))"

definition connected_components :: "digraph \<Rightarrow> pyval list list" where
  "connected_components G = components_loop G (nodes G) {}"

text \<open>\<open>G.subgraph(component).copy()\<close>: the nodes of the component and the edges between them.\<close>

definition subgraph :: "digraph \<Rightarrow> pyval list \<Rightarrow> digraph" where
  "subgraph G component =
     \<lparr>nodes = filter (\<lambda>n. n \<in> set component) (nodes G),
      edges = filter (\<lambda>e. fst e \<in> set component \<and> snd e \<in> set component) (edges G)\<rparr>"

text \<open>
  \<open>nx.simple_cycles\<close> yields every elementary circuit once, as the list of its nodes:
  the nodes are pairwise distinct and the first one is not repeated at the end. The
  library's own order of enumeration is not reproduced: circuits are listed by length,
  each starting at its earliest node.
\<close>

definition extend_paths :: "digraph \<Rightarrow> pyval list list \<Rightarrow> pyval list list" where
  "extend_paths G ps =
     concat (map (\<lambda>p. map (\<lambda>v. p @ [v]) (filter (\<lambda>v. v \<notin> set p) (successors G (last p)))) ps)"

fun simple_paths :: "digraph \<Rightarrow> nat \<Rightarrow> pyval list list" where
  "simple_paths G 0 = map (\<lambda>n. [n]) (nodes G)"
| "simple_paths G (Suc k) = extend_paths G (simple_paths G k)"

definition node_position :: "digraph \<Rightarrow> pyval \<Rightarrow> nat" where
  "node_position G v = length (takeWhile (\<lambda>x. x \<noteq> v) (nodes G))"

definition is_circuit :: "digraph \<Rightarrow> pyval list \<Rightarrow> bool" where
  "is_circuit G p =
     (hd p \<in> set (successors G (last p)) \<and>
      list_all (\<lambda>v. node_position G (hd p) \<le> node_position G v) p)"

definition simple_cycles :: "digraph \<Rightarrow> pyval list list" where
  "simple_cycles G =
     concat (map (\<lambda>k. filter (is_circuit G) (simple_paths G k)) [0..<length (nodes G)])"

section \<open>The greedy strategy\<close>

fun cycles_loop :: "request_map \<Rightarrow> pyval list list \<Rightarrow> search_state \<Rightarrow> error + search_state" where
  "cycles_loop request_map [] st = Inr st"
| "cycles_loop request_map (cycle # cycles) st =
     (case consider_cycle request_map cycle st of
        Inl e \<Rightarrow> Inl e
      | Inr st' \<Rightarrow> cycles_loop request_map cycles st')"

text \<open>
  \<open>cycles.sort(key=len, reverse=True)\<close> is a stable sort by descending length.
\<close>

definition greedy_candidates :: "digraph \<Rightarrow> pyval list list" where
  "greedy_candidates sub =
     sort_key (\<lambda>c. - int (length c))
       (filter (\<lambda>c. 3 \<le> length c \<and> hd c = last c) (simple_cycles sub))"

fun greedy_components :: "digraph \<Rightarrow> request_map \<Rightarrow> pyval list list \<Rightarrow> search_state \<Rightarrow> error + search_state" where
  "greedy_components G request_map [] st = Inr st"
| "greedy_components G request_map (component # components) st =
     (case cycles_loop request_map (greedy_candidates (subgraph G component)) st of
        Inl e \<Rightarrow> Inl e
      | Inr st' \<Rightarrow> greedy_components G request_map components st')"

definition sample_cycles_greedy :: "digraph \<Rightarrow> request_map \<Rightarrow> int \<Rightarrow> error + pyval list list" where
  "sample_cycles_greedy G request_map max_len =
     (case greedy_components G request_map (connected_components G) initial_state of
        Inl e \<Rightarrow> Inl e
      | Inr st \<Rightarrow> Inr (all_cycles st))"

section \<open>The exhaustive strategy\<close>

text \<open>
  The stack is a list whose head is the top: \<open>stack.append\<close> is \<open>#\<close> and
  \<open>stack.pop()\<close> takes the head.
\<close>

type_synonym stack = "(pyval \<times> pyval list) list"

text \<open>
  The \<open>for neighbor in subgraph.successors(node)\<close> loop of lines 128 to 137. A
  neighbour that closes a path of at least three nodes is considered as a cycle and the
  loop is left (\<open>break\<close>), whatever the outcome; any other neighbour that is new to
  the path is pushed while the path is shorter than \<open>max_len\<close>.
\<close>

fun scan_successors :: "request_map \<Rightarrow> int \<Rightarrow> pyval \<Rightarrow> pyval list \<Rightarrow> pyval list \<Rightarrow> search_state \<Rightarrow> stack \<Rightarrow> error + (search_state \<times> stack)" where
  "scan_successors request_map max_len start path [] st stack = Inr (st, stack)"
| "scan_successors request_map max_len start path (neighbor # rest) st stack =
     (if neighbor = start \<and> 3 \<le> length path then
        (case consider_cycle request_map (path @ [start]) st of
           Inl e \<Rightarrow> Inl e
         | Inr st' \<Rightarrow> Inr (st', stack))
      else if neighbor \<notin> set path \<and> int (length path) < max_len then
        scan_successors request_map max_len start path rest st ((neighbor, path @ [neighbor]) # stack)
      else scan_successors request_map max_len start path rest st stack)"

text \<open>
  What one pass of the loop does to the stack: it only pushes, each pushed path is one
  node longer than the path popped, and nothing is pushed unless that path is shorter
  than \<open>max_len\<close>.
\<close>

lemma scan_successors_stack:
  "scan_successors rm ml start path nbs st stack = Inr (st', stack') \<Longrightarrow>
   \<exists>new. stack' = new @ stack \<and>
     list_all (\<lambda>e. length (snd e) = Suc (length path) \<and> int (length path) < ml) new"
proof (induction nbs arbitrary: st stack)
  case Nil
  then show ?case by simp
next
  case (Cons nb nbs)
  show ?case
  proof (cases "nb = start \<and> 3 \<le> length path")
    case True
    with Cons.prems show ?thesis by (auto split: sum.splits)
  next
    case False
    show ?thesis
    proof (cases "nb \<notin> set path \<and> int (length path) < ml")
      case True
      with False Cons.prems
      have "scan_successors rm ml start path nbs st ((nb, path @ [nb]) # stack) = Inr (st', stack')"
        by auto
      from Cons.IH [OF this] obtain new where
        n: "stack' = new @ (nb, path @ [nb]) # stack"
           "list_all (\<lambda>e. length (snd e) = Suc (length path) \<and> int (length path) < ml) new"
        by blast
      have "stack' = (new @ [(nb, path @ [nb])]) @ stack" using n by simp
      moreover have "list_all (\<lambda>e. length (snd e) = Suc (length path) \<and> int (length path) < ml)
                       (new @ [(nb, path @ [nb])])"
        using n True by simp
      ultimately show ?thesis by blast
    next
      case F2: False
      with False Cons.prems
      have "scan_successors rm ml start path nbs st stack = Inr (st', stack')"
        by auto
      from Cons.IH [OF this] show ?thesis .
    qed
  qed
qed

text \<open>
  The \<open>while stack\<close> loop ends: the multiset of the distances of the stacked paths from
  \<open>max_len\<close> shrinks at every pass.
\<close>

definition stack_weight :: "int \<Rightarrow> stack \<Rightarrow> nat multiset" where
  "stack_weight ml stack = mset (map (\<lambda>e. nat (ml - int (length (snd e)))) stack)"

lemma stack_weight_decreases:
  assumes "list_all (\<lambda>e. length (snd e) = Suc (length path) \<and> int (length path) < ml) new"
  shows "(stack_weight ml (new @ stack), stack_weight ml ((node, path) # stack)) \<in> mult less_than"
proof -
  let ?K = "stack_weight ml new"
  let ?I = "stack_weight ml stack"
  let ?a = "nat (ml - int (length path))"
  have small: "\<forall>k \<in># ?K. \<exists>j \<in># {#?a#}. (k, j) \<in> less_than"
    using assms by (auto simp: stack_weight_def list_all_iff)
  have "(?I + ?K, ?I + {#?a#}) \<in> mult less_than"
    by (rule one_step_implies_mult) (use small in auto)
  then show ?thesis by (simp add: stack_weight_def ac_simps)
qed

function dfs_while :: "digraph \<Rightarrow> request_map \<Rightarrow> int \<Rightarrow> pyval \<Rightarrow> stack \<Rightarrow> search_state \<Rightarrow> error + search_state" where
  "dfs_while sub request_map max_len start [] st = Inr st"
| "dfs_while sub request_map max_len start ((node, path) # stack) st =
     (case scan_successors request_map max_len start path (successors sub node) st stack of
        Inl e \<Rightarrow> Inl e
      | Inr (st', stack') \<Rightarrow> dfs_while sub request_map max_len start stack' st')"
  by pat_completeness auto

termination
proof (relation "inv_image (mult less_than) (\<lambda>(sub, rm, ml, start, stack, st). stack_weight ml stack)")
  show "wf (inv_image (mult less_than) (\<lambda>(sub, rm, ml, start, stack, st). stack_weight ml stack))"
    by (simp add: wf_mult)
next
  fix sub :: digraph and request_map :: request_map and max_len start node path stack st x2 x y
  assume "scan_successors request_map max_len start path (successors sub node) st stack = Inr x2"
    and "(x, y) = x2"
  then have "scan_successors request_map max_len start path (successors sub node) st stack = Inr (x, y)"
    by simp
  from scan_successors_stack [OF this] obtain new where
    "y = new @ stack"
    "list_all (\<lambda>e. length (snd e) = Suc (length path) \<and> int (length path) < max_len) new"
    by blast
  then show "((sub, request_map, max_len, start, y, x), (sub, request_map, max_len, start, (node, path) # stack, st))
      \<in> inv_image (mult less_than) (\<lambda>(sub, rm, ml, start, stack, st). stack_weight ml stack)"
    using stack_weight_decreases [of path max_len new stack node] by simp
qed

fun starts_loop :: "digraph \<Rightarrow> request_map \<Rightarrow> int \<Rightarrow> pyval list \<Rightarrow> search_state \<Rightarrow> error + search_state" where
  "starts_loop sub request_map max_len [] st = Inr st"
| "starts_loop sub request_map max_len (start # starts) st =
     (case dfs_while sub request_map max_len start [(start, [start])] st of
        Inl e \<Rightarrow> Inl e
      | Inr st' \<Rightarrow> starts_loop sub request_map max_len starts st')"

fun exhaustive_components :: "digraph \<Rightarrow> request_map \<Rightarrow> int \<Rightarrow> pyval list list \<Rightarrow> search_state \<Rightarrow> error + search_state" where
  "exhaustive_components G request_map max_len [] st = Inr st"
| "exhaustive_components G request_map max_len (component # components) st =
     (let sub = subgraph G component
      in case starts_loop sub request_map max_len (nodes sub) st of
           Inl e \<Rightarrow> Inl e
         | Inr st' \<Rightarrow> exhaustive_components G request_map max_len components st')"

definition sample_cycles_exhaustive :: "digraph \<Rightarrow> request_map \<Rightarrow> int \<Rightarrow> error + pyval list list" where
  "sample_cycles_exhaustive G request_map max_len =
     (case exhaustive_components G request_map max_len (connected_components G) initial_state of
        Inl e \<Rightarrow> Inl e
      | Inr st \<Rightarrow> Inr (all_cycles st))"

section \<open>The cycle describer\<close>

text \<open>
  \<open>next((o for o in ... for w in ... if ...), None)\<close>: the offer of the first pair
  that matches, in stored order.
\<close>

fun first_match :: "(asset \<times> asset) list \<Rightarrow> error + asset option" where
  "first_match [] = Inr None"
| "first_match ((ofr, wnt) # ps) =
     (case names_match ofr wnt of
        Inl e \<Rightarrow> Inl e
      | Inr b \<Rightarrow> (if b then Inr (Some ofr) else first_match ps))"

text \<open>The arrow of the description line is U+2192, here as its three UTF-8 bytes.\<close>

definition arrow :: string where
  "arrow = [CHR 0xE2, CHR 0x86, CHR 0x92]"

text \<open>The f-string of line 157, on the three texts it interpolates.\<close>

definition format_line :: "string \<Rightarrow> string \<Rightarrow> string \<Rightarrow> string" where
  "format_line giver_name key receiver_name =
     giver_name @ '' offers '' @ [CHR 0x27] @ key @ [CHR 0x27] @ '' '' @ arrow @ '' to '' @ receiver_name"

definition step_line :: "request \<Rightarrow> asset \<Rightarrow> request \<Rightarrow> string" where
  "step_line giver matching_offer receiver =
     format_line (py_str (req_name giver)) (the (full_name matching_offer)) (py_str (req_name receiver))"

fun describe_steps :: "request_map \<Rightarrow> pyval list \<Rightarrow> error + string list" where
  "describe_steps request_map (giver_id # receiver_id # rest) =
     (case request_map giver_id of
        None \<Rightarrow> Inl (KeyError_id giver_id)
      | Some giver \<Rightarrow>
          (case request_map receiver_id of
             None \<Rightarrow> Inl (KeyError_id receiver_id)
           | Some receiver \<Rightarrow>
               (case first_match (List.product (offers giver) (wants receiver)) of
                  Inl e \<Rightarrow> Inl e
                | Inr matching_offer \<Rightarrow>
                    (case describe_steps request_map (receiver_id # rest) of
                       Inl e \<Rightarrow> Inl e
                     | Inr description \<Rightarrow>
                         Inr ((case matching_offer of
                                 None \<Rightarrow> []
                               | Some ofr \<Rightarrow> [step_line giver ofr receiver]) @ description)))))"
| "describe_steps request_map [p] = Inr []"
| "describe_steps request_map [] = Inr []"

fun join_lines :: "string list \<Rightarrow> string" where
  "join_lines [] = []"
| "join_lines [l] = l"
| "join_lines (l # l' # ls) = l @ [CHR 0x0A] @ join_lines (l' # ls)"

record cycle_record =
  cycle_id :: nat
  exchange_path :: string

text \<open>
  The loop of \<open>describe_cycles\<close> over \<open>enumerate(cycles)\<close>; the two data frames are
  the two lists of records. The cycles that go into the second one are those that
  contain the integer \<open>0\<close>.
\<close>

fun describe_loop :: "request_map \<Rightarrow> (nat \<times> pyval list) list \<Rightarrow> cycle_record list \<Rightarrow> cycle_record list \<Rightarrow> error + (cycle_record list \<times> cycle_record list)" where
  "describe_loop request_map [] all_recs user_recs = Inr (all_recs, user_recs)"
| "describe_loop request_map ((i, cycle) # rest) all_recs user_recs =
     (if length cycle < 3 \<or> hd cycle \<noteq> last cycle then
        describe_loop request_map rest all_recs user_recs
      else (case describe_steps request_map cycle of
              Inl e \<Rightarrow> Inl e
            | Inr description \<Rightarrow>
                (let r = \<lparr>cycle_id = i, exchange_path = join_lines description\<rparr>
                 in describe_loop request_map rest (all_recs @ [r])
                      (if PyInt 0 \<in> set cycle then user_recs @ [r] else user_recs))))"

definition describe_cycles :: "pyval list list \<Rightarrow> request_map \<Rightarrow> error + (cycle_record list \<times> cycle_record list)" where
  "describe_cycles cycles request_map = describe_loop request_map (enumerate 0 cycles) [] []"

section \<open>The matching run of the script\<close>

text \<open>Line 201: \<open>request_map = {r['id']: r for r in all_requests}\<close>; a later request with the same id replaces an earlier one.\<close>

definition request_map_of :: "request list \<Rightarrow> request_map" where
  "request_map_of requests = fold (\<lambda>r m. m(req_id r \<mapsto> r)) requests Map.empty"

text \<open>
  Lines 201 to 209: the request map, the graph, the chosen strategy with its default
  \<open>max_len\<close> of 10, and the first frame of \<open>describe_cycles\<close>. The cycles are
  returned beside the frame.
\<close>

datatype algo_choice = Greedy | Exhaustive

definition find_exchange_cycles :: "algo_choice \<Rightarrow> request list \<Rightarrow> error + (pyval list list \<times> cycle_record list)" where
  "find_exchange_cycles algo all_requests =
     (let request_map = request_map_of all_requests
      in case build_graph all_requests of
           Inl e \<Rightarrow> Inl e
         | Inr G \<Rightarrow>
             (case (case algo of
                      Greedy \<Rightarrow> sample_cycles_greedy G request_map 10
                    | Exhaustive \<Rightarrow> sample_cycles_exhaustive G request_map 10) of
                Inl e \<Rightarrow> Inl e
              | Inr cycles \<Rightarrow>
                  (case describe_cycles cycles request_map of
                     Inl e \<Rightarrow> Inl e
                   | Inr (df_all, df_user) \<Rightarrow> Inr (cycles, df_all))))"

section \<open>Cycles, steps and gifts\<close>

text \<open>
  The consecutive (giver, receiver) pairs of a node sequence, and what it means for a
  returned sequence to be a closed cycle over a set of edges: the first node is repeated
  at the end, and the nodes before that repeat are at least three and pairwise distinct.
\<close>

definition steps :: "pyval list \<Rightarrow> (pyval \<times> pyval) list" where
  "steps cycle = zip cycle (tl cycle)"

definition closed_cycle :: "(pyval \<times> pyval) set \<Rightarrow> pyval list \<Rightarrow> bool" where
  "closed_cycle E c =
     (hd c = last c \<and> 3 \<le> length (butlast c) \<and> distinct (butlast c) \<and> set (steps c) \<subseteq> E)"

definition good_entry :: "(pyval \<times> pyval) set \<Rightarrow> pyval \<Rightarrow> pyval \<times> pyval list \<Rightarrow> bool" where
  "good_entry E start e =
     (snd e \<noteq> [] \<and> hd (snd e) = start \<and> last (snd e) = fst e \<and> distinct (snd e) \<and>
      set (steps (snd e)) \<subseteq> E)"

definition good_state :: "(pyval \<times> pyval) set \<Rightarrow> search_state \<Rightarrow> bool" where
  "good_state E st =
     ((\<forall>c \<in> set (all_cycles st). closed_cycle E c \<and> set c \<subseteq> used_nodes st) \<and>
      sorted_wrt (\<lambda>c d. set c \<inter> set d = {}) (all_cycles st))"

text \<open>
  The demand relation between two participant ids, read off the request list: some
  request of the giver offers an asset whose name equals, case-insensitively, a name
  wanted by some request of the receiver.
\<close>

definition demand_edge :: "request list \<Rightarrow> pyval \<Rightarrow> pyval \<Rightarrow> bool" where
  "demand_edge requests g r =
     (g \<noteq> r \<and>
      list_ex (\<lambda>a. req_id a = g \<and>
        list_ex (\<lambda>b. req_id b = r \<and>
          list_ex (\<lambda>ofr.
            list_ex (\<lambda>wnt.
              (case full_name ofr of
                 None \<Rightarrow> False
               | Some x \<Rightarrow> (case full_name wnt of None \<Rightarrow> False | Some y \<Rightarrow> lower x = lower y)))
              (wants b))
            (offers a))
          requests)
        requests)"

definition step_gift :: "request_map \<Rightarrow> pyval \<times> pyval \<Rightarrow> (pyval \<times> string) list" where
  "step_gift request_map s =
     (case request_map (fst s) of
        None \<Rightarrow> []
      | Some giver \<Rightarrow>
          (case request_map (snd s) of
             None \<Rightarrow> []
           | Some receiver \<Rightarrow>
               (case first_match (List.product (offers giver) (wants receiver)) of
                  Inl e \<Rightarrow> []
                | Inr None \<Rightarrow> []
                | Inr (Some ofr) \<Rightarrow> [(fst s, the (full_name ofr))])))"

definition cycle_gifts :: "request_map \<Rightarrow> pyval list \<Rightarrow> (pyval \<times> string) list" where
  "cycle_gifts request_map cycle = concat (map (step_gift request_map) (steps cycle))"

text \<open>
  The keys of the matching pairs among a list of offer and want pairs of one giver.
\<close>

definition pair_keys :: "pyval \<Rightarrow> (asset \<times> asset) list \<Rightarrow> offer_keys" where
  "pair_keys giver_id ps =
     (\<lambda>p. (giver_id, the (full_name (fst p)))) `
       set (filter (\<lambda>p. names_match (fst p) (snd p) = Inr True) ps)"

text \<open>
  The keys that the conflict check meets at one step and along a cycle: the giver with
  the name of each of its offers that matches a want of the receiver, every matching
  pair counted, not only the first.
\<close>

definition step_matches :: "request_map \<Rightarrow> pyval \<times> pyval \<Rightarrow> offer_keys" where
  "step_matches request_map s =
     (case request_map (fst s) of
        None \<Rightarrow> {}
      | Some giver \<Rightarrow>
          (case request_map (snd s) of
             None \<Rightarrow> {}
           | Some receiver \<Rightarrow>
               (\<lambda>p. (fst s, the (full_name (fst p)))) `
                 set (filter (\<lambda>p. names_match (fst p) (snd p) = Inr True)
                        (List.product (offers giver) (wants receiver)))))"

definition cycle_matches :: "request_map \<Rightarrow> pyval list \<Rightarrow> offer_keys" where
  "cycle_matches request_map cycle = \<Union> (set (map (step_matches request_map) (steps cycle)))"

section \<open>Texts that differ only in letter case or in outer white space\<close>

text \<open>
  Two characters are the same letter when they are equal or one is the capital of the
  other; two texts are the same when, white space at both ends set aside, they are
  equally long and agree letter by letter.
\<close>

definition same_letter :: "char \<Rightarrow> char \<Rightarrow> bool" where
  "same_letter c d = (c = d \<or> (is_lower c \<and> d = upper_char c) \<or> (is_lower d \<and> c = upper_char d))"

definition same_text :: "string \<Rightarrow> string \<Rightarrow> bool" where
  "same_text s t =
     (\<exists>p1 c1 q1 p2 c2 q2.
        s = p1 @ c1 @ q1 \<and> t = p2 @ c2 @ q2 \<and>
        list_all is_space p1 \<and> list_all is_space q1 \<and>
        list_all is_space p2 \<and> list_all is_space q2 \<and>
        list_all2 same_letter c1 c2)"

text \<open>
  The characters on which \<open>strip\<close>, \<open>upper\<close> and \<open>lower\<close> above are Python's:
  the code points below 128.
\<close>

definition is_ascii :: "char \<Rightarrow> bool" where
  "is_ascii c = ((of_char c :: nat) < 128)"

definition ascii_text :: "string \<Rightarrow> bool" where
  "ascii_text s = list_all is_ascii s"

section \<open>Invariants of the exhaustive search\<close>

lemma steps_snoc: "path \<noteq> [] \<Longrightarrow> steps (path @ [v]) = steps path @ [(last path, v)]"
proof (induction path)
  case Nil
  then show ?case by simp
next
  case (Cons a path)
  then show ?case by (cases path) (simp_all add: steps_def)
qed

lemma closing_a_path:
  assumes "good_entry E start (node, path)" "3 \<le> length path" "(node, start) \<in> E"
  shows "closed_cycle E (path @ [start])"
  using assms by (auto simp: good_entry_def closed_cycle_def steps_snoc hd_append)

lemma extending_a_path:
  assumes "good_entry E start (node, path)" "nb \<notin> set path" "(node, nb) \<in> E"
  shows "good_entry E start (nb, path @ [nb])"
  using assms by (auto simp: good_entry_def steps_snoc hd_append)

lemma consider_cycle_good:
  assumes "consider_cycle rm c st = Inr st'" "good_state E st" "closed_cycle E c"
  shows "good_state E st'"
proof (cases "list_ex (\<lambda>p. p \<in> used_nodes st) c")
  case True
  with assms show ?thesis by (simp add: consider_cycle_def)
next
  case False
  then have fresh: "set c \<inter> used_nodes st = {}" by (auto simp: list_ex_iff)
  from False assms(1) obtain conflict used' where
    v: "violates_offer_conflict c rm (used_offers st) = Inr (conflict, used')"
    by (auto simp: consider_cycle_def split: sum.splits)
  show ?thesis
  proof (cases conflict)
    case True
    with False v assms(1) have "st' = st\<lparr>used_offers := used'\<rparr>"
      by (simp add: consider_cycle_def)
    with assms(2) show ?thesis by (simp add: good_state_def)
  next
    case F: False
    with False v assms(1) have st': "st' = \<lparr>all_cycles = all_cycles st @ [c],
        used_nodes = used_nodes st \<union> set c, used_offers = used'\<rparr>"
      by (simp add: consider_cycle_def)
    have "\<forall>d \<in> set (all_cycles st). set d \<inter> set c = {}"
      using assms(2) fresh by (auto simp: good_state_def)
    with assms(2,3) show ?thesis
      unfolding st' good_state_def by (auto simp: sorted_wrt_append)
  qed
qed

lemma scan_successors_good:
  assumes "scan_successors rm ml start path nbs st stack = Inr (st', stack')"
    and "good_state E st" "list_all (good_entry E start) stack"
    and "good_entry E start (node, path)"
    and "\<forall>nb \<in> set nbs. (node, nb) \<in> E"
  shows "good_state E st' \<and> list_all (good_entry E start) stack'"
  using assms
proof (induction nbs arbitrary: st stack)
  case Nil
  then show ?case by simp
next
  case (Cons nb nbs)
  show ?case
  proof (cases "nb = start \<and> 3 \<le> length path")
    case True
    with Cons.prems(1) obtain st1 where
      c: "consider_cycle rm (path @ [start]) st = Inr st1" and eq: "st' = st1" "stack' = stack"
      by (auto split: sum.splits)
    have "closed_cycle E (path @ [start])"
      using closing_a_path [OF Cons.prems(4)] True Cons.prems(5) by auto
    from consider_cycle_good [OF c Cons.prems(2) this] eq Cons.prems(3) show ?thesis by simp
  next
    case False
    show ?thesis
    proof (cases "nb \<notin> set path \<and> int (length path) < ml")
      case True
      with False Cons.prems(1)
      have run: "scan_successors rm ml start path nbs st ((nb, path @ [nb]) # stack) = Inr (st', stack')"
        by auto
      have "good_entry E start (nb, path @ [nb])"
        using extending_a_path [OF Cons.prems(4)] True Cons.prems(5) by auto
      then have "list_all (good_entry E start) ((nb, path @ [nb]) # stack)"
        using Cons.prems(3) by simp
      from Cons.IH [OF run Cons.prems(2) this Cons.prems(4)] Cons.prems(5) show ?thesis by simp
    next
      case F2: False
      with False Cons.prems(1)
      have run: "scan_successors rm ml start path nbs st stack = Inr (st', stack')"
        by auto
      from Cons.IH [OF run Cons.prems(2,3,4)] Cons.prems(5) show ?thesis by simp
    qed
  qed
qed

lemma successors_edges: "nb \<in> set (successors G n) \<Longrightarrow> (n, nb) \<in> set (edges G)"
  by (auto simp: successors_def)

lemma dfs_while_good:
  assumes "dfs_while sub rm ml start stack st = Inr st'"
    and "good_state E st" "list_all (good_entry E start) stack" "set (edges sub) \<subseteq> E"
  shows "good_state E st'"
  using assms
proof (induction sub rm ml start stack st rule: dfs_while.induct)
  case (1 sub rm ml start st)
  then show ?case by simp
next
  case (2 sub rm ml start node path stack st)
  from "2.prems"(1) obtain st1 stack1 where
    s: "scan_successors rm ml start path (successors sub node) st stack = Inr (st1, stack1)"
    and d: "dfs_while sub rm ml start stack1 st1 = Inr st'"
    by (auto split: sum.splits)
  have nbs: "\<forall>nb \<in> set (successors sub node). (node, nb) \<in> E"
    using successors_edges "2.prems"(4) by blast
  from "2.prems"(3) have top: "good_entry E start (node, path)"
    and below: "list_all (good_entry E start) stack" by simp_all
  from scan_successors_good [OF s "2.prems"(2) below top nbs]
  have "good_state E st1" "list_all (good_entry E start) stack1" by simp_all
  from "2.IH" [OF s refl d this "2.prems"(4)] show ?case .
qed

lemma starts_loop_good:
  assumes "starts_loop sub rm ml starts st = Inr st'" "good_state E st" "set (edges sub) \<subseteq> E"
  shows "good_state E st'"
  using assms
proof (induction starts arbitrary: st)
  case Nil
  then show ?case by simp
next
  case (Cons start starts)
  from Cons.prems(1) obtain st1 where
    d: "dfs_while sub rm ml start [(start, [start])] st = Inr st1"
    and r: "starts_loop sub rm ml starts st1 = Inr st'"
    by (auto split: sum.splits)
  have "list_all (good_entry E start) [(start, [start])]"
    by (simp add: good_entry_def steps_def)
  from dfs_while_good [OF d Cons.prems(2) this Cons.prems(3)] have "good_state E st1" .
  from Cons.IH [OF r this Cons.prems(3)] show ?case .
qed

lemma subgraph_edges: "set (edges (subgraph G component)) \<subseteq> set (edges G)"
  by (auto simp: subgraph_def)

lemma exhaustive_components_good:
  assumes "exhaustive_components G rm ml comps st = Inr st'" "good_state (set (edges G)) st"
  shows "good_state (set (edges G)) st'"
  using assms
proof (induction comps arbitrary: st)
  case Nil
  then show ?case by simp
next
  case (Cons comp comps)
  from Cons.prems(1) obtain st1 where
    s: "starts_loop (subgraph G comp) rm ml (nodes (subgraph G comp)) st = Inr st1"
    and r: "exhaustive_components G rm ml comps st1 = Inr st'"
    by (auto simp: Let_def split: sum.splits)
  from starts_loop_good [OF s Cons.prems(2) subgraph_edges] have "good_state (set (edges G)) st1" .
  from Cons.IH [OF r this] show ?case .
qed

lemma initial_state_good: "good_state E initial_state"
  by (simp add: good_state_def initial_state_def)

lemma sample_cycles_exhaustive_good:
  assumes "sample_cycles_exhaustive G rm ml = Inr cycles"
  shows "(\<forall>c \<in> set cycles. closed_cycle (set (edges G)) c) \<and>
         sorted_wrt (\<lambda>c d. set c \<inter> set d = {}) cycles"
proof -
  from assms obtain st where
    e: "exhaustive_components G rm ml (connected_components G) initial_state = Inr st"
    and c: "cycles = all_cycles st"
    by (auto simp: sample_cycles_exhaustive_def split: sum.splits)
  from exhaustive_components_good [OF e initial_state_good] c show ?thesis
    by (simp add: good_state_def)
qed

section \<open>The greedy strategy never keeps a candidate\<close>

text \<open>
  A circuit listed by \<open>simple_cycles\<close> has pairwise distinct nodes, so a circuit with
  three nodes or more never has its first node equal to its last, and the filter of
  line 108 leaves nothing.
\<close>

lemma extend_paths_distinct:
  assumes "\<forall>p \<in> set ps. distinct p \<and> p \<noteq> []"
  shows "\<forall>p \<in> set (extend_paths G ps). distinct p \<and> p \<noteq> []"
  using assms by (auto simp: extend_paths_def)

lemma simple_paths_distinct: "\<forall>p \<in> set (simple_paths G k). distinct p \<and> p \<noteq> []"
proof (induction k)
  case 0
  then show ?case by auto
next
  case (Suc k)
  then show ?case using extend_paths_distinct by simp
qed

lemma simple_cycles_distinct: "c \<in> set (simple_cycles G) \<Longrightarrow> distinct c"
  using simple_paths_distinct by (auto simp: simple_cycles_def)

lemma distinct_hd_last: "distinct c \<Longrightarrow> 2 \<le> length c \<Longrightarrow> hd c \<noteq> last c"
proof (cases c)
  case Nil
  assume "2 \<le> length c"
  with Nil show ?thesis by simp
next
  case (Cons x xs)
  assume d: "distinct c" and l: "2 \<le> length c"
  from l Cons have "xs \<noteq> []" by auto
  then have "last c \<in> set xs" using Cons by simp
  with d Cons show ?thesis by auto
qed

lemma greedy_candidates_empty: "greedy_candidates sub = []"
proof -
  have "filter (\<lambda>c. 3 \<le> length c \<and> hd c = last c) (simple_cycles sub) = []"
    using simple_cycles_distinct distinct_hd_last by (fastforce simp: filter_empty_conv)
  then show ?thesis by (simp add: greedy_candidates_def)
qed

lemma greedy_components_unchanged: "greedy_components G rm comps st = Inr st"
  by (induction comps) (simp_all add: greedy_candidates_empty)

lemma sample_cycles_greedy_empty: "sample_cycles_greedy G rm ml = Inr []"
  by (simp add: sample_cycles_greedy_def greedy_components_unchanged initial_state_def)

section \<open>Edges of the built graph, and givers of gifts\<close>

lemma any_match_True:
  "any_match ps = Inr True \<Longrightarrow> \<exists>p \<in> set ps. names_match (fst p) (snd p) = Inr True"
  by (induction ps rule: any_match.induct) (auto split: sum.splits if_splits)

lemma add_node_edges [simp]: "edges (add_node n G) = edges G"
  by (simp add: add_node_def)

lemma add_edge_edges: "set (edges (add_edge u v G)) = insert (u, v) (set (edges G))"
  by (auto simp: add_edge_def Let_def)

lemma add_nodes_loop_edges [simp]: "edges (add_nodes_loop reqs G) = edges G"
  by (induction reqs arbitrary: G) simp_all

lemma match_demand_edge:
  assumes "any_match (List.product (offers a) (wants b)) = Inr True"
    and "a \<in> set requests" "b \<in> set requests" "req_id a \<noteq> req_id b"
  shows "demand_edge requests (req_id a) (req_id b)"
proof -
  from any_match_True [OF assms(1)] obtain ofr wnt where
    m: "ofr \<in> set (offers a)" "wnt \<in> set (wants b)" "names_match ofr wnt = Inr True"
    by auto
  from m(3) obtain x y where "full_name ofr = Some x" "full_name wnt = Some y" "lower x = lower y"
    by (auto simp: names_match_def split: option.splits)
  with m(1,2) assms(2,3,4) show ?thesis
    unfolding demand_edge_def list_ex_iff by force
qed

lemma edges_inner_loop_sound:
  assumes "edges_inner_loop a reqs G = Inr G'"
    and "a \<in> set requests" "set reqs \<subseteq> set requests"
    and "\<forall>e \<in> set (edges G). demand_edge requests (fst e) (snd e)"
  shows "\<forall>e \<in> set (edges G'). demand_edge requests (fst e) (snd e)"
  using assms
proof (induction reqs arbitrary: G)
  case Nil
  then show ?case by simp
next
  case (Cons b reqs)
  show ?case
  proof (cases "req_id a = req_id b")
    case True
    with Cons.prems have "edges_inner_loop a reqs G = Inr G'" by simp
    from Cons.IH [OF this Cons.prems(2)] Cons.prems(3,4) show ?thesis by simp
  next
    case False
    with Cons.prems(1) obtain m where
      am: "any_match (List.product (offers a) (wants b)) = Inr m"
      and run: "edges_inner_loop a reqs (if m then add_edge (req_id a) (req_id b) G else G) = Inr G'"
      by (auto split: sum.splits)
    have "\<forall>e \<in> set (edges (if m then add_edge (req_id a) (req_id b) G else G)).
            demand_edge requests (fst e) (snd e)"
    proof (cases m)
      case True
      with am have "demand_edge requests (req_id a) (req_id b)"
        using match_demand_edge [of a b requests] Cons.prems(2,3) False by simp
      with True Cons.prems(4) show ?thesis by (simp add: add_edge_edges)
    next
      case F: False
      with Cons.prems(4) show ?thesis by simp
    qed
    from Cons.IH [OF run Cons.prems(2) _ this] Cons.prems(3) show ?thesis by simp
  qed
qed

lemma edges_outer_loop_sound:
  assumes "edges_outer_loop reqs requests G = Inr G'"
    and "set reqs \<subseteq> set requests"
    and "\<forall>e \<in> set (edges G). demand_edge requests (fst e) (snd e)"
  shows "\<forall>e \<in> set (edges G'). demand_edge requests (fst e) (snd e)"
  using assms
proof (induction reqs arbitrary: G)
  case Nil
  then show ?case by simp
next
  case (Cons a reqs)
  from Cons.prems(1) obtain G1 where
    i: "edges_inner_loop a requests G = Inr G1" and o: "edges_outer_loop reqs requests G1 = Inr G'"
    by (auto split: sum.splits)
  have "\<forall>e \<in> set (edges G1). demand_edge requests (fst e) (snd e)"
    using edges_inner_loop_sound [OF i _ _ Cons.prems(3)] Cons.prems(2) by simp
  from Cons.IH [OF o _ this] Cons.prems(2) show ?case by simp
qed

lemma build_graph_sound:
  assumes "build_graph requests = Inr G" "e \<in> set (edges G)"
  shows "demand_edge requests (fst e) (snd e)"
proof -
  have "\<forall>e \<in> set (edges (add_nodes_loop requests empty_graph)). demand_edge requests (fst e) (snd e)"
    by (simp add: empty_graph_def)
  from edges_outer_loop_sound [OF assms(1) [unfolded build_graph_def] _ this] assms(2)
  show ?thesis by simp
qed

lemma step_gift_giver: "x \<in> set (step_gift rm s) \<Longrightarrow> fst x = fst s"
  by (auto simp: step_gift_def split: option.splits sum.splits)

lemma steps_givers: "s \<in> set (steps c) \<Longrightarrow> fst s \<in> set (butlast c)"
proof -
  assume "s \<in> set (steps c)"
  then have "fst s \<in> set (map fst (zip c (tl c)))" by (auto simp: steps_def)
  also have "map fst (zip c (tl c)) = take (length (tl c)) c" by (simp add: map_fst_zip_take)
  also have "\<dots> = butlast c" by (simp add: butlast_conv_take)
  finally show ?thesis .
qed

lemma cycle_gifts_givers: "x \<in> set (cycle_gifts rm c) \<Longrightarrow> fst x \<in> set (butlast c)"
  using step_gift_giver steps_givers by (fastforce simp: cycle_gifts_def)

section \<open>Example ledgers\<close>

text \<open>
  An asset that already carries its identity key, and a participant whose display name
  is its id.
\<close>

definition named :: "string \<Rightarrow> asset" where
  "named k = \<lparr>full_name = Some k, MODELO = None, VERSION = None\<rparr>"

definition participant :: "pyval \<Rightarrow> string list \<Rightarrow> string list \<Rightarrow> request" where
  "participant n os ws =
     \<lparr>req_id = n, req_name = n, offers = map named os, wants = map named ws, status = ''pending''\<rparr>"

text \<open>The ledger of the end-to-end example, and the graph that \<open>build_graph\<close> makes of it.\<close>

definition ring_abc :: "request list" where
  "ring_abc =
     [participant (PyStr ''A'') [''X''] [''Y''],
      participant (PyStr ''B'') [''Y''] [''Z''],
      participant (PyStr ''C'') [''Z''] [''X'']]"

definition graph_abc :: digraph where
  "graph_abc =
     \<lparr>nodes = [PyStr ''A'', PyStr ''B'', PyStr ''C''],
      edges = [(PyStr ''A'', PyStr ''C''), (PyStr ''B'', PyStr ''A''), (PyStr ''C'', PyStr ''B'')]\<rparr>"

text \<open>A second ring of three, disjoint from the first.\<close>

definition ring_def :: "request list" where
  "ring_def =
     [participant (PyStr ''D'') [''U''] [''V''],
      participant (PyStr ''E'') [''V''] [''W''],
      participant (PyStr ''F'') [''W''] [''U'']]"

definition graph_two_rings :: digraph where
  "graph_two_rings =
     \<lparr>nodes = [PyStr ''A'', PyStr ''B'', PyStr ''C'', PyStr ''D'', PyStr ''E'', PyStr ''F''],
      edges = [(PyStr ''A'', PyStr ''C''), (PyStr ''B'', PyStr ''A''), (PyStr ''C'', PyStr ''B''),
               (PyStr ''D'', PyStr ''F''), (PyStr ''E'', PyStr ''D''), (PyStr ''F'', PyStr ''E'')]\<rparr>"

text \<open>
  A ring in which B offers the same asset twice, a ring in which two offers of A match
  two wants of B, and two user documents of which the first has an offer without
  \<open>VERSION\<close>.
\<close>

definition ring_twin_offer :: "request list" where
  "ring_twin_offer =
     [participant (PyStr ''A'') [''X''] [''Z''],
      participant (PyStr ''B'') [''Y'', ''Y''] [''X''],
      participant (PyStr ''C'') [''Z''] [''Y'']]"

definition ring_two_matches :: "request list" where
  "ring_two_matches =
     [participant (PyStr ''A'') [''X'', ''Y''] [''W''],
      participant (PyStr ''B'') [''Z''] [''X'', ''Y''],
      participant (PyStr ''C'') [''W''] [''Z'']]"

definition keyless_docs :: "user_doc list" where
  "keyless_docs =
     [\<lparr>agency_id = PyStr ''A'', user_name = Some (PyStr ''Ana''),
       uploads = [\<lparr>up_offers = [\<lparr>full_name = None, MODELO = Some ''Civic'', VERSION = None\<rparr>],
                   up_wants = []\<rparr>]\<rparr>,
      \<lparr>agency_id = PyStr ''B'', user_name = Some (PyStr ''Beto''),
       uploads = [\<lparr>up_offers = [],
                   up_wants = [\<lparr>full_name = None, MODELO = Some ''Jetta'', VERSION = Some ''GL''\<rparr>]\<rparr>]\<rparr>]"

text \<open>Two rings of participants whose ids are integers, the first through the id \<open>0\<close>.\<close>

definition ring_numbered :: "request list" where
  "ring_numbered =
     [participant (PyInt 0) [''X''] [''Z''],
      participant (PyInt 1) [''Y''] [''X''],
      participant (PyInt 2) [''Z''] [''Y''],
      participant (PyInt 3) [''U''] [''W''],
      participant (PyInt 4) [''V''] [''U''],
      participant (PyInt 5) [''W''] [''V'']]"

text \<open>
  The component of a node, when a set of nodes is closed under the edges taken in both
  directions and every node of the set is a neighbour of the node.
\<close>

lemma trancl_stays_inside:
  assumes "(a, b) \<in> trancl E" "a \<in> S" "\<forall>e \<in> E. fst e \<in> S \<longrightarrow> snd e \<in> S"
  shows "b \<in> S"
  using assms by (induction rule: trancl.induct) auto

lemma plain_bfs_of_closed_set:
  assumes closed: "\<forall>e \<in> set (undirected_edges G). fst e \<in> S \<longrightarrow> snd e \<in> S"
    and v: "v \<in> S"
    and near: "\<forall>m \<in> S. m = v \<or> (v, m) \<in> set (undirected_edges G)"
  shows "plain_bfs G v = filter (\<lambda>m. m \<in> S) (nodes G)"
proof -
  have "(m = v \<or> (v, m) \<in> trancl (set (undirected_edges G))) = (m \<in> S)" for m
    using trancl_stays_inside [OF _ v closed] v near by blast
  then show ?thesis by (simp add: plain_bfs_def)
qed

lemma two_rings_components:
  "connected_components graph_two_rings
     = [[PyStr ''A'', PyStr ''B'', PyStr ''C''], [PyStr ''D'', PyStr ''E'', PyStr ''F'']]"
proof -
  have a: "plain_bfs graph_two_rings (PyStr ''A'')
      = filter (\<lambda>m. m \<in> {PyStr ''A'', PyStr ''B'', PyStr ''C''}) (nodes graph_two_rings)"
    by (rule plain_bfs_of_closed_set) (simp_all add: undirected_edges_def graph_two_rings_def)
  have d: "plain_bfs graph_two_rings (PyStr ''D'')
      = filter (\<lambda>m. m \<in> {PyStr ''D'', PyStr ''E'', PyStr ''F''}) (nodes graph_two_rings)"
    by (rule plain_bfs_of_closed_set) (simp_all add: undirected_edges_def graph_two_rings_def)
  have n: "nodes graph_two_rings
      = [PyStr ''A'', PyStr ''B'', PyStr ''C'', PyStr ''D'', PyStr ''E'', PyStr ''F'']"
    by (simp add: graph_two_rings_def)
  show ?thesis
    unfolding connected_components_def n by (simp add: a d n)
qed

lemma two_rings_run:
  "sample_cycles_exhaustive graph_two_rings (request_map_of (ring_abc @ ring_def)) 10
     = Inr [[PyStr ''A'', PyStr ''C'', PyStr ''B'', PyStr ''A''],
            [PyStr ''D'', PyStr ''F'', PyStr ''E'', PyStr ''D'']]"
proof -
  have "exhaustive_components graph_two_rings (request_map_of (ring_abc @ ring_def)) 10
     [[PyStr ''A'', PyStr ''B'', PyStr ''C''], [PyStr ''D'', PyStr ''E'', PyStr ''F'']] initial_state
     = Inr \<lparr>all_cycles = [[PyStr ''A'', PyStr ''C'', PyStr ''B'', PyStr ''A''],
            [PyStr ''D'', PyStr ''F'', PyStr ''E'', PyStr ''D'']],
            used_nodes = {PyStr ''A'', PyStr ''B'', PyStr ''C'', PyStr ''D'', PyStr ''E'', PyStr ''F''},
            used_offers = {(PyStr ''A'', ''X''), (PyStr ''C'', ''Z''), (PyStr ''B'', ''Y''),
               (PyStr ''D'', ''U''), (PyStr ''F'', ''W''), (PyStr ''E'', ''V'')}\<rparr>"
    by code_simp
  then show ?thesis by (simp add: sample_cycles_exhaustive_def two_rings_components)
qed

section \<open>What the conflict check adds to the tracker\<close>

lemma mark_matches_bounds:
  "mark_matches g ps used = Inr (b, used') \<Longrightarrow>
   used \<subseteq> used' \<and>
   used' \<subseteq> used \<union> (\<lambda>p. (g, the (full_name (fst p)))) `
                      set (filter (\<lambda>p. names_match (fst p) (snd p) = Inr True) ps)"
proof (induction g ps used rule: mark_matches.induct)
  case (1 g used)
  then show ?case by simp
next
  case (2 g ofr wnt ps used)
  from "2.prems" obtain m where m: "names_match ofr wnt = Inr m"
    by (auto split: sum.splits)
  show ?case
  proof (cases m)
    case False
    with m "2.prems" have "mark_matches g ps used = Inr (b, used')" by simp
    from "2.IH"(2) [OF m _ this] False m show ?thesis by auto
  next
    case True
    show ?thesis
    proof (cases "(g, the (full_name ofr)) \<in> used")
      case T: True
      with True m "2.prems" show ?thesis by auto
    next
      case F: False
      with True m "2.prems"
      have "mark_matches g ps (insert (g, the (full_name ofr)) used) = Inr (b, used')"
        by simp
      from "2.IH"(1) [OF m _ refl _ this] True F m show ?thesis by auto
    qed
  qed
qed

lemma mark_matches_accepts:
  "mark_matches g ps used = Inr (False, used') \<Longrightarrow>
   used' = used \<union> (\<lambda>p. (g, the (full_name (fst p)))) `
                      set (filter (\<lambda>p. names_match (fst p) (snd p) = Inr True) ps)"
proof (induction g ps used rule: mark_matches.induct)
  case (1 g used)
  then show ?case by simp
next
  case (2 g ofr wnt ps used)
  from "2.prems" obtain m where m: "names_match ofr wnt = Inr m"
    by (auto split: sum.splits)
  show ?case
  proof (cases m)
    case False
    with m "2.prems" have "mark_matches g ps used = Inr (False, used')" by simp
    from "2.IH"(2) [OF m _ this] False m show ?thesis by auto
  next
    case True
    show ?thesis
    proof (cases "(g, the (full_name ofr)) \<in> used")
      case T: True
      with True m "2.prems" show ?thesis by auto
    next
      case F: False
      with True m "2.prems"
      have "mark_matches g ps (insert (g, the (full_name ofr)) used) = Inr (False, used')"
        by simp
      from "2.IH"(1) [OF m _ refl _ this] True F m show ?thesis by auto
    qed
  qed
qed

lemma steps_Cons2 [simp]: "steps (g # r # rest) = (g, r) # steps (r # rest)"
  by (simp add: steps_def)

lemma steps_short [simp]: "steps [p] = []" "steps [] = []"
  by (simp_all add: steps_def)

lemma violates_offer_conflict_bounds:
  "violates_offer_conflict c rm used = Inr (b, used') \<Longrightarrow>
   used \<subseteq> used' \<and> used' \<subseteq> used \<union> cycle_matches rm c"
proof (induction c rm used rule: violates_offer_conflict.induct)
  case (1 g r rest rm used)
  from "1.prems" obtain giver receiver b1 u1 where
    gr: "rm g = Some giver" "rm r = Some receiver"
    and mm: "mark_matches g (List.product (offers giver) (wants receiver)) used = Inr (b1, u1)"
    by (auto split: option.splits sum.splits)
  from mark_matches_bounds [OF mm] gr
  have b1: "used \<subseteq> u1" "u1 \<subseteq> used \<union> step_matches rm (g, r)"
    by (simp_all add: step_matches_def)
  show ?case
  proof (cases b1)
    case True
    with gr mm "1.prems" have "used' = u1" by simp
    with b1 show ?thesis by (auto simp: cycle_matches_def)
  next
    case False
    with gr mm "1.prems" have "violates_offer_conflict (r # rest) rm u1 = Inr (b, used')" by simp
    from "1.IH" [OF gr mm refl _ this] False b1 show ?thesis
      by (auto simp: cycle_matches_def)
  qed
next
  case (2 p rm used)
  then show ?case by (simp add: cycle_matches_def)
next
  case (3 rm used)
  then show ?case by (simp add: cycle_matches_def)
qed

lemma violates_offer_conflict_accepts:
  "violates_offer_conflict c rm used = Inr (False, used') \<Longrightarrow> used' = used \<union> cycle_matches rm c"
proof (induction c rm used rule: violates_offer_conflict.induct)
  case (1 g r rest rm used)
  from "1.prems" obtain giver receiver b1 u1 where
    gr: "rm g = Some giver" "rm r = Some receiver"
    and mm: "mark_matches g (List.product (offers giver) (wants receiver)) used = Inr (b1, u1)"
    by (auto split: option.splits sum.splits)
  from gr mm "1.prems" have nb: "\<not> b1" by (auto split: if_splits)
  with mm have "mark_matches g (List.product (offers giver) (wants receiver)) used = Inr (False, u1)"
    by simp
  from mark_matches_accepts [OF this] gr
  have u1: "u1 = used \<union> step_matches rm (g, r)" by (simp add: step_matches_def)
  from nb gr mm "1.prems" have "violates_offer_conflict (r # rest) rm u1 = Inr (False, used')" by simp
  from "1.IH" [OF gr mm refl _ this] nb u1 show ?case
    by (auto simp: cycle_matches_def)
next
  case (2 p rm used)
  then show ?case by (simp add: cycle_matches_def)
next
  case (3 rm used)
  then show ?case by (simp add: cycle_matches_def)
qed

text \<open>
  A rejection, located: the check stopped at a matching pair of some step whose key
  was in the tracker by then, and the tracker it leaves is the one it found, with
  everything the earlier steps marked and what that step marked before the pair.
\<close>

lemma mark_matches_rejects:
  "mark_matches g ps used = Inr (True, used') \<Longrightarrow>
   \<exists>pre p post. ps = pre @ p # post \<and> names_match (fst p) (snd p) = Inr True \<and>
     (g, the (full_name (fst p))) \<in> used' \<and> used' = used \<union> pair_keys g pre"
proof (induction g ps used rule: mark_matches.induct)
  case (1 g used)
  then show ?case by simp
next
  case (2 g ofr wnt ps used)
  from "2.prems" obtain m where m: "names_match ofr wnt = Inr m"
    by (auto split: sum.splits)
  show ?case
  proof (cases m)
    case False
    with m "2.prems" have "mark_matches g ps used = Inr (True, used')" by simp
    from "2.IH"(2) [OF m _ this] False obtain pre p post where
      r: "ps = pre @ p # post" "names_match (fst p) (snd p) = Inr True"
         "(g, the (full_name (fst p))) \<in> used'" "used' = used \<union> pair_keys g pre"
      by auto
    have "pair_keys g ((ofr, wnt) # pre) = pair_keys g pre"
      using m False by (simp add: pair_keys_def)
    with r have "(ofr, wnt) # ps = ((ofr, wnt) # pre) @ p # post \<and>
        names_match (fst p) (snd p) = Inr True \<and>
        (g, the (full_name (fst p))) \<in> used' \<and> used' = used \<union> pair_keys g ((ofr, wnt) # pre)"
      by simp
    then show ?thesis by blast
  next
    case True
    show ?thesis
    proof (cases "(g, the (full_name ofr)) \<in> used")
      case T: True
      with True m "2.prems" have "used' = used" by simp
      with T True m have "(ofr, wnt) # ps = [] @ (ofr, wnt) # ps \<and>
          names_match (fst (ofr, wnt)) (snd (ofr, wnt)) = Inr True \<and>
          (g, the (full_name (fst (ofr, wnt)))) \<in> used' \<and> used' = used \<union> pair_keys g []"
        by (simp add: pair_keys_def)
      then show ?thesis by blast
    next
      case F: False
      with True m "2.prems"
      have "mark_matches g ps (insert (g, the (full_name ofr)) used) = Inr (True, used')"
        by simp
      from "2.IH"(1) [OF m _ refl _ this] True F obtain pre p post where
        r: "ps = pre @ p # post" "names_match (fst p) (snd p) = Inr True"
           "(g, the (full_name (fst p))) \<in> used'"
           "used' = insert (g, the (full_name ofr)) used \<union> pair_keys g pre"
        by auto
      have "pair_keys g ((ofr, wnt) # pre) = insert (g, the (full_name ofr)) (pair_keys g pre)"
        using m True by (simp add: pair_keys_def)
      with r have "(ofr, wnt) # ps = ((ofr, wnt) # pre) @ p # post \<and>
          names_match (fst p) (snd p) = Inr True \<and>
          (g, the (full_name (fst p))) \<in> used' \<and> used' = used \<union> pair_keys g ((ofr, wnt) # pre)"
        by simp
      then show ?thesis by blast
    qed
  qed
qed

lemma violates_offer_conflict_rejects:
  "violates_offer_conflict c rm used = Inr (True, used') \<Longrightarrow>
   \<exists>done s rest giver receiver pre p post.
     steps c = done @ s # rest \<and>
     rm (fst s) = Some giver \<and> rm (snd s) = Some receiver \<and>
     List.product (offers giver) (wants receiver) = pre @ p # post \<and>
     names_match (fst p) (snd p) = Inr True \<and>
     (fst s, the (full_name (fst p))) \<in> used' \<and>
     used' = used \<union> \<Union> (set (map (step_matches rm) done)) \<union> pair_keys (fst s) pre"
proof (induction c rm used rule: violates_offer_conflict.induct)
  case (1 g r rest rm used)
  from "1.prems" obtain giver receiver b1 u1 where
    gr: "rm g = Some giver" "rm r = Some receiver"
    and mm: "mark_matches g (List.product (offers giver) (wants receiver)) used = Inr (b1, u1)"
    by (auto split: option.splits sum.splits)
  show ?case
  proof (cases b1)
    case True
    with gr mm "1.prems" have u: "used' = u1" by simp
    from mm True have "mark_matches g (List.product (offers giver) (wants receiver)) used = Inr (True, u1)"
      by simp
    from mark_matches_rejects [OF this] obtain pre p post where
      r: "List.product (offers giver) (wants receiver) = pre @ p # post"
         "names_match (fst p) (snd p) = Inr True"
         "(g, the (full_name (fst p))) \<in> u1" "u1 = used \<union> pair_keys g pre"
      by blast
    with gr u have "steps (g # r # rest) = [] @ (g, r) # steps (r # rest) \<and>
        rm (fst (g, r)) = Some giver \<and> rm (snd (g, r)) = Some receiver \<and>
        List.product (offers giver) (wants receiver) = pre @ p # post \<and>
        names_match (fst p) (snd p) = Inr True \<and>
        (fst (g, r), the (full_name (fst p))) \<in> used' \<and>
        used' = used \<union> \<Union> (set (map (step_matches rm) [])) \<union> pair_keys (fst (g, r)) pre"
      by simp
    then show ?thesis by blast
  next
    case False
    with mm have "mark_matches g (List.product (offers giver) (wants receiver)) used = Inr (False, u1)"
      by simp
    from mark_matches_accepts [OF this] gr
    have u1: "u1 = used \<union> step_matches rm (g, r)" by (simp add: step_matches_def)
    from False gr mm "1.prems"
    have "violates_offer_conflict (r # rest) rm u1 = Inr (True, used')" by simp
    from "1.IH" [OF gr mm refl False this] obtain dn s rst giver' receiver' pre p post where
      r: "steps (r # rest) = dn @ s # rst"
         "rm (fst s) = Some giver'" "rm (snd s) = Some receiver'"
         "List.product (offers giver') (wants receiver') = pre @ p # post"
         "names_match (fst p) (snd p) = Inr True"
         "(fst s, the (full_name (fst p))) \<in> used'"
         "used' = u1 \<union> \<Union> (set (map (step_matches rm) dn)) \<union> pair_keys (fst s) pre"
      by blast
    have "used' = used \<union> \<Union> (set (map (step_matches rm) ((g, r) # dn))) \<union> pair_keys (fst s) pre"
      using r(7) u1 by auto
    with r have "steps (g # r # rest) = ((g, r) # dn) @ s # rst \<and>
        rm (fst s) = Some giver' \<and> rm (snd s) = Some receiver' \<and>
        List.product (offers giver') (wants receiver') = pre @ p # post \<and>
        names_match (fst p) (snd p) = Inr True \<and>
        (fst s, the (full_name (fst p))) \<in> used' \<and>
        used' = used \<union> \<Union> (set (map (step_matches rm) ((g, r) # dn))) \<union> pair_keys (fst s) pre"
      by simp
    then show ?thesis by blast
  qed
next
  case (2 p rm used)
  then show ?case by simp
next
  case (3 rm used)
  then show ?case by simp
qed

section \<open>What both strategies guarantee\<close>

lemma strategies_good:
  assumes "sample_cycles_greedy G rm ml = Inr cycles \<or> sample_cycles_exhaustive G rm ml = Inr cycles"
  shows "(\<forall>c \<in> set cycles. closed_cycle (set (edges G)) c) \<and>
         sorted_wrt (\<lambda>c d. set c \<inter> set d = {}) cycles"
  using assms
proof
  assume "sample_cycles_greedy G rm ml = Inr cycles"
  then have "cycles = []" by (simp add: sample_cycles_greedy_empty)
  then show ?thesis by simp
next
  assume "sample_cycles_exhaustive G rm ml = Inr cycles"
  then show ?thesis by (rule sample_cycles_exhaustive_good)
qed

lemma strategies_disjoint:
  assumes "sample_cycles_greedy G rm ml = Inr cycles \<or> sample_cycles_exhaustive G rm ml = Inr cycles"
    and "i < length cycles" "j < length cycles" "i \<noteq> j"
  shows "set (cycles ! i) \<inter> set (cycles ! j) = {}"
proof -
  from strategies_good [OF assms(1)]
  have s: "sorted_wrt (\<lambda>c d. set c \<inter> set d = {}) cycles" by simp
  show ?thesis
  proof (cases "i < j")
    case True
    with s assms(3) show ?thesis by (simp add: sorted_wrt_iff_nth_less)
  next
    case False
    with assms(4) have "j < i" by simp
    with s assms(2) have "set (cycles ! j) \<inter> set (cycles ! i) = {}"
      by (simp add: sorted_wrt_iff_nth_less)
    then show ?thesis by blast
  qed
qed

section \<open>Properties of the strategies\<close>

text \<open>
  C10. The greedy strategy does not read its depth bound: for every graph and request
  map, two runs that differ only in \<open>max_len\<close> give the same result.
\<close>

theorem sample_cycles_greedy_ignores_max_len:
  "sample_cycles_greedy G request_map m1 = sample_cycles_greedy G request_map m2"
  by (simp add: sample_cycles_greedy_def)

text \<open>
  C2. Every cycle returned by either strategy, on the graph that \<open>build_graph\<close> made,
  starts and ends with the same node, has at least three pairwise distinct nodes before
  the closing repeat, and each of its consecutive pairs is an edge of that graph, that
  is, a pair of participant ids with an offer of the first matching,
  case-insensitively, a want of the second.
\<close>

theorem returned_cycles_closed:
  assumes "build_graph requests = Inr G"
    and "sample_cycles_greedy G request_map max_len = Inr cycles \<or>
         sample_cycles_exhaustive G request_map max_len = Inr cycles"
    and "c \<in> set cycles"
  shows "hd c = last c \<and> 3 \<le> length (butlast c) \<and> distinct (butlast c) \<and>
         list_all (\<lambda>s. s \<in> set (edges G) \<and> demand_edge requests (fst s) (snd s)) (steps c)"
proof -
  from strategies_good [OF assms(2)] assms(3) have cc: "closed_cycle (set (edges G)) c" by simp
  then have "\<forall>s \<in> set (steps c). s \<in> set (edges G)" by (auto simp: closed_cycle_def)
  with build_graph_sound [OF assms(1)]
  have "list_all (\<lambda>s. s \<in> set (edges G) \<and> demand_edge requests (fst s) (snd s)) (steps c)"
    by (simp add: list_all_iff)
  with cc show ?thesis by (simp add: closed_cycle_def)
qed

theorem returned_cycles_closed_witness:
  "build_graph ring_abc = Inr graph_abc \<and>
   sample_cycles_exhaustive graph_abc (request_map_of ring_abc) 10
     = Inr [[PyStr ''A'', PyStr ''C'', PyStr ''B'', PyStr ''A'']] \<and>
   3 \<le> length (butlast [PyStr ''A'', PyStr ''C'', PyStr ''B'', PyStr ''A'']) \<and>
   list_all (\<lambda>s. s \<in> set (edges graph_abc) \<and> demand_edge ring_abc (fst s) (snd s))
     (steps [PyStr ''A'', PyStr ''C'', PyStr ''B'', PyStr ''A''])"
proof -
  have g: "build_graph ring_abc = Inr graph_abc" by code_simp
  have r: "sample_cycles_exhaustive graph_abc (request_map_of ring_abc) 10
     = Inr [[PyStr ''A'', PyStr ''C'', PyStr ''B'', PyStr ''A'']]" by code_simp
  from returned_cycles_closed [OF g disjI2 [OF r], of "[PyStr ''A'', PyStr ''C'', PyStr ''B'', PyStr ''A'']"]
  show ?thesis using g r by simp
qed

text \<open>
  C4. In the list returned by either strategy, two cycles at different positions have
  no node in common, neither among their internal nodes nor in the whole sequences.
\<close>

theorem participants_at_most_once:
  assumes "sample_cycles_greedy G request_map max_len = Inr cycles \<or>
           sample_cycles_exhaustive G request_map max_len = Inr cycles"
    and "i < length cycles" "j < length cycles" "i \<noteq> j"
  shows "set (butlast (cycles ! i)) \<inter> set (butlast (cycles ! j)) = {} \<and>
         set (cycles ! i) \<inter> set (cycles ! j) = {}"
proof -
  from strategies_disjoint [OF assms] have d: "set (cycles ! i) \<inter> set (cycles ! j) = {}" .
  moreover have "set (butlast (cycles ! i)) \<subseteq> set (cycles ! i)"
    "set (butlast (cycles ! j)) \<subseteq> set (cycles ! j)"
    by (auto dest: in_set_butlastD)
  ultimately show ?thesis by blast
qed

theorem participants_at_most_once_witness:
  "sample_cycles_exhaustive graph_two_rings (request_map_of (ring_abc @ ring_def)) 10
     = Inr [[PyStr ''A'', PyStr ''C'', PyStr ''B'', PyStr ''A''],
            [PyStr ''D'', PyStr ''F'', PyStr ''E'', PyStr ''D'']] \<and>
   set [PyStr ''A'', PyStr ''C'', PyStr ''B'', PyStr ''A'']
     \<inter> set [PyStr ''D'', PyStr ''F'', PyStr ''E'', PyStr ''D''] = {}"
  using participants_at_most_once [OF disjI2 [OF two_rings_run], of 0 1] two_rings_run by simp

text \<open>
  C3. In the list returned by either strategy, the gifts of two cycles at different
  positions, the pair of the giver and the name of its first offer matching a want of
  the receiver at each step, as \<open>describe_cycles\<close> derives them, have no pair in common.
\<close>

theorem assets_at_most_once:
  assumes "sample_cycles_greedy G request_map max_len = Inr cycles \<or>
           sample_cycles_exhaustive G request_map max_len = Inr cycles"
    and "i < length cycles" "j < length cycles" "i \<noteq> j"
  shows "set (cycle_gifts request_map (cycles ! i)) \<inter> set (cycle_gifts request_map (cycles ! j)) = {}"
proof -
  from strategies_disjoint [OF assms] have d: "set (cycles ! i) \<inter> set (cycles ! j) = {}" .
  show ?thesis
  proof (rule ccontr)
    assume "set (cycle_gifts request_map (cycles ! i)) \<inter> set (cycle_gifts request_map (cycles ! j)) \<noteq> {}"
    then obtain x where "x \<in> set (cycle_gifts request_map (cycles ! i))"
      "x \<in> set (cycle_gifts request_map (cycles ! j))" by blast
    then have "fst x \<in> set (butlast (cycles ! i))" "fst x \<in> set (butlast (cycles ! j))"
      by (auto dest: cycle_gifts_givers)
    then have "fst x \<in> set (cycles ! i) \<inter> set (cycles ! j)"
      by (auto dest: in_set_butlastD)
    with d show False by simp
  qed
qed

theorem assets_at_most_once_witness:
  "sample_cycles_exhaustive graph_two_rings (request_map_of (ring_abc @ ring_def)) 10
     = Inr [[PyStr ''A'', PyStr ''C'', PyStr ''B'', PyStr ''A''],
            [PyStr ''D'', PyStr ''F'', PyStr ''E'', PyStr ''D'']] \<and>
   cycle_gifts (request_map_of (ring_abc @ ring_def)) [PyStr ''A'', PyStr ''C'', PyStr ''B'', PyStr ''A'']
     = [(PyStr ''A'', ''X''), (PyStr ''C'', ''Z''), (PyStr ''B'', ''Y'')] \<and>
   cycle_gifts (request_map_of (ring_abc @ ring_def)) [PyStr ''D'', PyStr ''F'', PyStr ''E'', PyStr ''D'']
     = [(PyStr ''D'', ''U''), (PyStr ''F'', ''W''), (PyStr ''E'', ''V'')] \<and>
   set (cycle_gifts (request_map_of (ring_abc @ ring_def)) [PyStr ''A'', PyStr ''C'', PyStr ''B'', PyStr ''A''])
     \<inter> set (cycle_gifts (request_map_of (ring_abc @ ring_def)) [PyStr ''D'', PyStr ''F'', PyStr ''E'', PyStr ''D'']) = {}"
proof -
  have a: "cycle_gifts (request_map_of (ring_abc @ ring_def)) [PyStr ''A'', PyStr ''C'', PyStr ''B'', PyStr ''A'']
     = [(PyStr ''A'', ''X''), (PyStr ''C'', ''Z''), (PyStr ''B'', ''Y'')]" by code_simp
  have b: "cycle_gifts (request_map_of (ring_abc @ ring_def)) [PyStr ''D'', PyStr ''F'', PyStr ''E'', PyStr ''D'']
     = [(PyStr ''D'', ''U''), (PyStr ''F'', ''W''), (PyStr ''E'', ''V'')]" by code_simp
  from assets_at_most_once [OF disjI2 [OF two_rings_run], of 0 1] two_rings_run a b
  show ?thesis by simp
qed

section \<open>Properties of the conflict check and of graph construction\<close>

text \<open>
  C5, as the claim states it, fails. On the ring where B offers the same asset twice,
  checked from an empty tracker, the step from A to B marks A's offer, the step from B
  to C then meets B's key a second time and the check returns \<open>True\<close>; both keys stay
  in the tracker.
\<close>

theorem rejection_leaves_marks:
  "violates_offer_conflict [PyStr ''A'', PyStr ''B'', PyStr ''C'', PyStr ''A'']
     (request_map_of ring_twin_offer) {}
   = Inr (True, {(PyStr ''A'', ''X''), (PyStr ''B'', ''Y'')})"
  by code_simp

text \<open>
  C5, amended. When the check returns \<open>True\<close> the tracker is not restored. The
  steps of the cycle split into the steps completed, the step of the conflict and the
  rest; the conflict is a matching pair of that step whose key is in the tracker; and
  the state after the call is the state before it together with every match of the
  completed steps and the matches of the conflicting step that come before that pair.
  So it contains the state before, and adds only matches of the rejected cycle.
\<close>

theorem rejection_keeps_marks:
  assumes "violates_offer_conflict cycle request_map used = Inr (True, used')"
  shows "used \<subseteq> used' \<and> used' \<subseteq> used \<union> cycle_matches request_map cycle \<and>
     (\<exists>done s rest giver receiver pre p post.
        steps cycle = done @ s # rest \<and>
        request_map (fst s) = Some giver \<and> request_map (snd s) = Some receiver \<and>
        List.product (offers giver) (wants receiver) = pre @ p # post \<and>
        names_match (fst p) (snd p) = Inr True \<and>
        (fst s, the (full_name (fst p))) \<in> used' \<and>
        used' = used \<union> \<Union> (set (map (step_matches request_map) done)) \<union> pair_keys (fst s) pre)"
  using violates_offer_conflict_bounds [OF assms] violates_offer_conflict_rejects [OF assms]
  by simp

theorem rejection_keeps_marks_witness:
  "violates_offer_conflict [PyStr ''A'', PyStr ''B'', PyStr ''C'', PyStr ''A'']
     (request_map_of ring_twin_offer) {(PyStr ''D'', ''U'')}
   = Inr (True, {(PyStr ''A'', ''X''), (PyStr ''B'', ''Y''), (PyStr ''D'', ''U'')}) \<and>
   step_matches (request_map_of ring_twin_offer) (PyStr ''A'', PyStr ''B'') = {(PyStr ''A'', ''X'')} \<and>
   {(PyStr ''D'', ''U'')} \<subseteq> {(PyStr ''A'', ''X''), (PyStr ''B'', ''Y''), (PyStr ''D'', ''U'')} \<and>
   (\<exists>done s rest giver receiver pre p post.
      steps [PyStr ''A'', PyStr ''B'', PyStr ''C'', PyStr ''A''] = done @ s # rest \<and>
      request_map_of ring_twin_offer (fst s) = Some giver \<and>
      request_map_of ring_twin_offer (snd s) = Some receiver \<and>
      List.product (offers giver) (wants receiver) = pre @ p # post \<and>
      names_match (fst p) (snd p) = Inr True \<and>
      (fst s, the (full_name (fst p))) \<in> {(PyStr ''A'', ''X''), (PyStr ''B'', ''Y''), (PyStr ''D'', ''U'')} \<and>
      {(PyStr ''A'', ''X''), (PyStr ''B'', ''Y''), (PyStr ''D'', ''U'')}
        = {(PyStr ''D'', ''U'')} \<union> \<Union> (set (map (step_matches (request_map_of ring_twin_offer)) done))
            \<union> pair_keys (fst s) pre)"
proof -
  have v: "violates_offer_conflict [PyStr ''A'', PyStr ''B'', PyStr ''C'', PyStr ''A'']
     (request_map_of ring_twin_offer) {(PyStr ''D'', ''U'')}
   = Inr (True, {(PyStr ''A'', ''X''), (PyStr ''B'', ''Y''), (PyStr ''D'', ''U'')})" by code_simp
  have s: "step_matches (request_map_of ring_twin_offer) (PyStr ''A'', PyStr ''B'') = {(PyStr ''A'', ''X'')}"
    by code_simp
  from rejection_keeps_marks [OF v] v s show ?thesis by simp
qed

text \<open>
  C6 fails on the code. With two offers of A matching two wants of B, the check accepts
  the cycle and marks both of A's offers, while the gift of that step, the first
  match, is the first offer alone.
\<close>

theorem accepted_cycle_marks_every_match:
  "violates_offer_conflict [PyStr ''A'', PyStr ''B'', PyStr ''C'', PyStr ''A'']
     (request_map_of ring_two_matches) {}
   = Inr (False, {(PyStr ''A'', ''X''), (PyStr ''A'', ''Y''), (PyStr ''B'', ''Z''), (PyStr ''C'', ''W'')}) \<and>
   step_gift (request_map_of ring_two_matches) (PyStr ''A'', PyStr ''B'') = [(PyStr ''A'', ''X'')]"
  by code_simp

text \<open>
  C8 fails on the code. The loader leaves an entry that lacks \<open>VERSION\<close> without
  \<open>full_name\<close>, and \<open>build_graph\<close> indexes \<open>full_name\<close> of every offer it compares:
  with such an offer on one side and any want on the other, it raises \<open>KeyError\<close>.
\<close>

theorem build_graph_raises_on_keyless_entry:
  "build_graph (load_all_requests keyless_docs) = Inl (KeyError_field ''full_name'')"
  by code_simp


section \<open>Properties of the describer\<close>

text \<open>
  The records appended to both frames by \<open>describe_loop\<close>: the second frame gets,
  in order, those of the first whose cycle contains \<open>0\<close>.
\<close>

lemma describe_loop_filter:
  "describe_loop rm (enumerate n cycles) all_recs user_recs = Inr (all_recs', user_recs') \<Longrightarrow>
   \<exists>new. all_recs' = all_recs @ new \<and>
         user_recs' = user_recs @ filter (\<lambda>r. PyInt 0 \<in> set (cycles ! (cycle_id r - n))) new \<and>
         (\<forall>r \<in> set new. n \<le> cycle_id r)"
proof (induction cycles arbitrary: n all_recs user_recs)
  case Nil
  then show ?case by simp
next
  case (Cons c cycles)
  have shift: "filter (\<lambda>r. PyInt 0 \<in> set ((c # cycles) ! (cycle_id r - n))) new
             = filter (\<lambda>r. PyInt 0 \<in> set (cycles ! (cycle_id r - Suc n))) new"
    if "\<forall>r \<in> set new. Suc n \<le> cycle_id r" for new :: "cycle_record list"
  proof (rule filter_cong [OF refl])
    fix r assume "r \<in> set new"
    with that have "Suc n \<le> cycle_id r" by simp
    then have "cycle_id r - n = Suc (cycle_id r - Suc n)" by simp
    then show "(PyInt 0 \<in> set ((c # cycles) ! (cycle_id r - n)))
             = (PyInt 0 \<in> set (cycles ! (cycle_id r - Suc n)))" by simp
  qed
  show ?case
  proof (cases "length c < 3 \<or> hd c \<noteq> last c")
    case True
    with Cons.prems
    have "describe_loop rm (enumerate (Suc n) cycles) all_recs user_recs = Inr (all_recs', user_recs')"
      by simp
    from Cons.IH [OF this] obtain new where
      n: "all_recs' = all_recs @ new"
         "user_recs' = user_recs @ filter (\<lambda>r. PyInt 0 \<in> set (cycles ! (cycle_id r - Suc n))) new"
         "\<forall>r \<in> set new. Suc n \<le> cycle_id r" by blast
    from n(3) have "\<forall>r \<in> set new. n \<le> cycle_id r" by auto
    with n shift [OF n(3)] show ?thesis by auto
  next
    case False
    with Cons.prems obtain description where
      d: "describe_steps rm c = Inr description"
      by (auto split: sum.splits)
    let ?r0 = "\<lparr>cycle_id = n, exchange_path = join_lines description\<rparr>"
    from False d Cons.prems
    have "describe_loop rm (enumerate (Suc n) cycles) (all_recs @ [?r0])
            (if PyInt 0 \<in> set c then user_recs @ [?r0] else user_recs) = Inr (all_recs', user_recs')"
      by (simp add: Let_def split del: if_split)
    from Cons.IH [OF this] obtain new where
      n: "all_recs' = (all_recs @ [?r0]) @ new"
         "user_recs' = (if PyInt 0 \<in> set c then user_recs @ [?r0] else user_recs)
             @ filter (\<lambda>r. PyInt 0 \<in> set (cycles ! (cycle_id r - Suc n))) new"
         "\<forall>r \<in> set new. Suc n \<le> cycle_id r" by blast
    have id0: "cycle_id ?r0 = n" by simp
    have "all_recs' = all_recs @ (?r0 # new)" using n(1) by simp
    moreover have "user_recs' = user_recs @
        filter (\<lambda>r. PyInt 0 \<in> set ((c # cycles) ! (cycle_id r - n))) (?r0 # new)"
      using n(2) shift [OF n(3)] id0 by simp
    moreover have "\<forall>r \<in> set (?r0 # new). n \<le> cycle_id r"
      using n(3) id0 by auto
    ultimately show ?thesis by blast
  qed
qed

text \<open>
  C7. The filtered view returned by \<open>describe_cycles\<close> is exactly the sublist of the
  described cycles whose node sequence contains the designated self id, which the code
  fixes as the integer \<open>0\<close>: a record is in the view iff \<open>0\<close> occurs in the cycle
  that its \<open>cycle_id\<close> indexes.
\<close>

theorem user_cycles_are_the_cycles_with_self:
  assumes "describe_cycles cycles request_map = Inr (all_recs, user_recs)"
  shows "user_recs = filter (\<lambda>r. PyInt 0 \<in> set (cycles ! cycle_id r)) all_recs"
  using describe_loop_filter [OF assms [unfolded describe_cycles_def]] by auto

theorem user_cycles_are_the_cycles_with_self_witness:
  "describe_cycles [[PyInt 0, PyInt 1, PyInt 2, PyInt 0], [PyInt 3, PyInt 4, PyInt 5, PyInt 3]]
     (request_map_of ring_numbered)
   = Inr ([\<lparr>cycle_id = 0, exchange_path = join_lines
             [format_line ''0'' ''X'' ''1'', format_line ''1'' ''Y'' ''2'', format_line ''2'' ''Z'' ''0'']\<rparr>,
           \<lparr>cycle_id = 1, exchange_path = join_lines
             [format_line ''3'' ''U'' ''4'', format_line ''4'' ''V'' ''5'', format_line ''5'' ''W'' ''3'']\<rparr>],
          [\<lparr>cycle_id = 0, exchange_path = join_lines
             [format_line ''0'' ''X'' ''1'', format_line ''1'' ''Y'' ''2'', format_line ''2'' ''Z'' ''0'']\<rparr>]) \<and>
   [\<lparr>cycle_id = 0, exchange_path = join_lines
       [format_line ''0'' ''X'' ''1'', format_line ''1'' ''Y'' ''2'', format_line ''2'' ''Z'' ''0'']\<rparr>]
   = filter (\<lambda>r. PyInt 0 \<in> set ([[PyInt 0, PyInt 1, PyInt 2, PyInt 0],
                                      [PyInt 3, PyInt 4, PyInt 5, PyInt 3]] ! cycle_id r))
       [\<lparr>cycle_id = 0, exchange_path = join_lines
          [format_line ''0'' ''X'' ''1'', format_line ''1'' ''Y'' ''2'', format_line ''2'' ''Z'' ''0'']\<rparr>,
        \<lparr>cycle_id = 1, exchange_path = join_lines
          [format_line ''3'' ''U'' ''4'', format_line ''4'' ''V'' ''5'', format_line ''5'' ''W'' ''3'']\<rparr>]"
proof -
  have d: "describe_cycles [[PyInt 0, PyInt 1, PyInt 2, PyInt 0], [PyInt 3, PyInt 4, PyInt 5, PyInt 3]]
     (request_map_of ring_numbered)
   = Inr ([\<lparr>cycle_id = 0, exchange_path = join_lines
             [format_line ''0'' ''X'' ''1'', format_line ''1'' ''Y'' ''2'', format_line ''2'' ''Z'' ''0'']\<rparr>,
           \<lparr>cycle_id = 1, exchange_path = join_lines
             [format_line ''3'' ''U'' ''4'', format_line ''4'' ''V'' ''5'', format_line ''5'' ''W'' ''3'']\<rparr>],
          [\<lparr>cycle_id = 0, exchange_path = join_lines
             [format_line ''0'' ''X'' ''1'', format_line ''1'' ''Y'' ''2'', format_line ''2'' ''Z'' ''0'']\<rparr>])"
    by code_simp
  from user_cycles_are_the_cycles_with_self [OF d] d show ?thesis by simp
qed

section \<open>Properties of the identity key\<close>

lemma of_char_upper:
  assumes "is_lower c"
  shows "(of_char (upper_char c) :: nat) = of_char c - 32"
proof -
  from assms have "(of_char c :: nat) \<le> 122" by (simp add: is_lower_def Let_def)
  then have "(of_char c :: nat) - 32 < 256" by arith
  then have "((of_char c :: nat) - 32) mod 256 = of_char c - 32" by (rule mod_less)
  with assms show ?thesis by (simp add: upper_char_def)
qed

lemma upper_char_is_upper:
  assumes "is_lower c"
  shows "is_upper (upper_char c) \<and> \<not> is_lower (upper_char c) \<and> \<not> is_space (upper_char c) \<and> \<not> is_space c"
proof -
  from assms have b: "97 \<le> (of_char c :: nat)" "(of_char c :: nat) \<le> 122"
    by (simp_all add: is_lower_def Let_def)
  have u: "(of_char (upper_char c) :: nat) = of_char c - 32" using assms by (rule of_char_upper)
  from b have "65 \<le> (of_char c :: nat) - 32" "(of_char c :: nat) - 32 \<le> 90" by arith+
  with b show ?thesis unfolding is_upper_def is_lower_def is_space_def Let_def u by arith
qed

lemma lower_upper_char: "is_lower c \<Longrightarrow> lower_char (upper_char c) = c"
proof -
  assume l: "is_lower c"
  then have n: "(of_char (upper_char c) :: nat) = of_char c - 32" by (rule of_char_upper)
  from l have "is_upper (upper_char c)" using upper_char_is_upper by blast
  then have "lower_char (upper_char c) = char_of ((of_char c :: nat) - 32 + 32)"
    by (simp add: lower_char_def n)
  also have "(of_char c :: nat) - 32 + 32 = of_char c"
    using l by (simp add: is_lower_def Let_def)
  finally show ?thesis by simp
qed

lemma upper_char_idem: "upper_char (upper_char c) = upper_char c"
proof (cases "is_lower c")
  case True
  then have "\<not> is_lower (upper_char c)" using upper_char_is_upper by blast
  then show ?thesis by (simp add: upper_char_def)
next
  case False
  then show ?thesis by (simp add: upper_char_def)
qed

lemma same_letter_key: "same_letter c d \<Longrightarrow> lower_char (upper_char c) = lower_char (upper_char d)"
  unfolding same_letter_def by (auto simp: upper_char_idem)

lemma same_letter_space: "same_letter c d \<Longrightarrow> is_space c = is_space d"
  unfolding same_letter_def using upper_char_is_upper by blast

lemma dropWhile_same_letter:
  "list_all2 same_letter s t \<Longrightarrow> list_all2 same_letter (dropWhile is_space s) (dropWhile is_space t)"
  by (induction rule: list_all2_induct) (auto dest: same_letter_space)

lemma strip_same_letter: "list_all2 same_letter s t \<Longrightarrow> list_all2 same_letter (strip s) (strip t)"
  unfolding strip_def by (intro iffD2 [OF list_all2_rev] dropWhile_same_letter) simp

lemma same_letter_lower_upper:
  "list_all2 same_letter s t \<Longrightarrow> lower (upper s) = lower (upper t)"
  unfolding lower_def upper_def
  by (induction rule: list_all2_induct) (auto dest: same_letter_key)

lemma dropWhile_space_prefix: "list_all is_space p \<Longrightarrow> dropWhile is_space (p @ s) = dropWhile is_space s"
  by (induction p) auto

lemma strip_padding:
  assumes "list_all is_space p" "list_all is_space q"
  shows "strip (p @ c @ q) = strip c"
proof -
  have q: "list_all is_space (rev q)" using assms(2) by (simp add: list_all_iff)
  have "rev (dropWhile is_space (rev (dropWhile is_space (c @ q))))
      = rev (dropWhile is_space (rev (dropWhile is_space c)))"
  proof (cases "list_all is_space c")
    case True
    then have e: "dropWhile is_space (c @ q) = []" "dropWhile is_space c = []"
      using assms(2) by (simp_all add: list_all_iff dropWhile_eq_Nil_conv Ball_def)
    show ?thesis by (simp only: e)
  next
    case False
    then have "dropWhile is_space (c @ q) = dropWhile is_space c @ q"
      by (auto simp: list_all_iff dropWhile_append1)
    then show ?thesis using dropWhile_space_prefix [OF q] by simp
  qed
  then show ?thesis using dropWhile_space_prefix [OF assms(1)] by (simp add: strip_def)
qed

lemma same_text_key:
  assumes "same_text s t"
  shows "lower (upper (strip s)) = lower (upper (strip t))"
proof -
  from assms obtain p1 c1 q1 p2 c2 q2 where
    st: "s = p1 @ c1 @ q1" "t = p2 @ c2 @ q2"
    and sp: "list_all is_space p1" "list_all is_space q1" "list_all is_space p2" "list_all is_space q2"
    and c: "list_all2 same_letter c1 c2"
    unfolding same_text_def by blast
  have "strip s = strip c1" "strip t = strip c2"
    using st sp by (simp_all add: strip_padding)
  with strip_same_letter [OF c] show ?thesis by (simp add: same_letter_lower_upper)
qed

text \<open>
  C9, as the claim states it, fails. An entry that already carries \<open>full_name\<close>
  keeps it as it is (the guard of line 56), so two records with the very same
  \<open>MODELO\<close> and \<open>VERSION\<close> whose stored keys differ in a trailing blank do not
  match.
\<close>

theorem preset_key_is_not_normalised:
  "names_match
     (add_full_name \<lparr>full_name = Some ''Civic - LX '', MODELO = Some ''Civic'', VERSION = Some ''LX''\<rparr>)
     (add_full_name \<lparr>full_name = Some ''Civic - LX'', MODELO = Some ''Civic'', VERSION = Some ''LX''\<rparr>)
   = Inr False"
  by code_simp

text \<open>
  C9, amended. Two asset records that carry \<open>MODELO\<close> and \<open>VERSION\<close> in ASCII
  text and no \<open>full_name\<close> of their own, and whose two fields differ only in letter
  case or in white space at the ends, get identity keys from the loader that the
  comparison of \<open>build_graph\<close> and of \<open>violates_offer_conflict\<close> finds equal. The
  instance is Civic / "LX " against CIVIC / lx.
\<close>

theorem identity_key_ignores_case_and_padding:
  assumes "full_name a = None" "full_name b = None"
    and "MODELO a = Some m1" "VERSION a = Some v1"
    and "MODELO b = Some m2" "VERSION b = Some v2"
    and "ascii_text m1" "ascii_text v1" "ascii_text m2" "ascii_text v2"
    and "same_text m1 m2" "same_text v1 v2"
  shows "names_match (add_full_name a) (add_full_name b) = Inr True"
proof -
  have "lower (upper (strip m1) @ '' - '' @ upper (strip v1))
      = lower (upper (strip m2) @ '' - '' @ upper (strip v2))"
    using same_text_key [OF assms(11)] same_text_key [OF assms(12)] by (simp add: lower_def)
  with assms(1-6) show ?thesis by (simp add: names_match_def add_full_name_def)
qed

lemma civic_texts: "same_text ''Civic'' ''CIVIC''" "same_text ''LX '' ''lx''"
proof -
  have "list_all2 same_letter ''Civic'' ''CIVIC''" by code_simp
  then have "''Civic'' = [] @ ''Civic'' @ [] \<and> ''CIVIC'' = [] @ ''CIVIC'' @ [] \<and>
        list_all is_space [] \<and> list_all is_space [] \<and> list_all is_space [] \<and> list_all is_space [] \<and>
        list_all2 same_letter ''Civic'' ''CIVIC''"
    by simp
  then show "same_text ''Civic'' ''CIVIC''" unfolding same_text_def by blast
  have "list_all2 same_letter ''LX'' ''lx''" "list_all is_space '' ''" by code_simp+
  then have "''LX '' = [] @ ''LX'' @ '' '' \<and> ''lx'' = [] @ ''lx'' @ [] \<and>
        list_all is_space [] \<and> list_all is_space '' '' \<and> list_all is_space [] \<and> list_all is_space [] \<and>
        list_all2 same_letter ''LX'' ''lx''"
    by simp
  then show "same_text ''LX '' ''lx''" unfolding same_text_def by blast
qed

lemma civic_ascii: "ascii_text ''Civic''" "ascii_text ''LX ''" "ascii_text ''CIVIC''" "ascii_text ''lx''"
  by code_simp+

theorem identity_key_ignores_case_and_padding_witness:
  "ascii_text ''Civic'' \<and> ascii_text ''LX '' \<and> ascii_text ''CIVIC'' \<and> ascii_text ''lx'' \<and>
   same_text ''Civic'' ''CIVIC'' \<and> same_text ''LX '' ''lx'' \<and>
   names_match (add_full_name \<lparr>full_name = None, MODELO = Some ''Civic'', VERSION = Some ''LX ''\<rparr>)
               (add_full_name \<lparr>full_name = None, MODELO = Some ''CIVIC'', VERSION = Some ''lx''\<rparr>)
     = Inr True"
  using identity_key_ignores_case_and_padding
    [of "\<lparr>full_name = None, MODELO = Some ''Civic'', VERSION = Some ''LX ''\<rparr>"
        "\<lparr>full_name = None, MODELO = Some ''CIVIC'', VERSION = Some ''lx''\<rparr>"
        "''Civic''" "''LX ''" "''CIVIC''" "''lx''"]
    civic_texts civic_ascii
  by simp

section \<open>The end-to-end example\<close>

text \<open>
  C1, as the claim states it, fails. A offers X and it is C who wants X, so the edges
  are A to C, C to B and B to A: the one cycle that the exhaustive strategy returns is
  [A, C, B, A], which is no rotation of [A, B, C, A].
\<close>

theorem end_to_end_example_runs_from_A_to_C:
  "sample_cycles_exhaustive graph_abc (request_map_of ring_abc) 10
     = Inr [[PyStr ''A'', PyStr ''C'', PyStr ''B'', PyStr ''A'']] \<and>
   [PyStr ''A'', PyStr ''C'', PyStr ''B'', PyStr ''A'']
     \<notin> set [[PyStr ''A'', PyStr ''B'', PyStr ''C'', PyStr ''A''],
              [PyStr ''B'', PyStr ''C'', PyStr ''A'', PyStr ''B''],
              [PyStr ''C'', PyStr ''A'', PyStr ''B'', PyStr ''C'']]"
  by code_simp

text \<open>
  C1, amended. On the three participants of the example the exhaustive strategy
  returns exactly one cycle, [A, C, B, A], and its description is the three lines
  "A offers 'X' -> to C", "C offers 'Z' -> to B", "B offers 'Y' -> to A" (with the arrow
  U+2192), in the order of the traversal.
\<close>

theorem end_to_end_example_exhaustive:
  "find_exchange_cycles Exhaustive ring_abc
     = Inr ([[PyStr ''A'', PyStr ''C'', PyStr ''B'', PyStr ''A'']],
            [\<lparr>cycle_id = 0,
              exchange_path =
                ''A offers '' @ [CHR 0x27] @ ''X'' @ [CHR 0x27] @ '' '' @ arrow @ '' to C'' @ [CHR 0x0A] @
                ''C offers '' @ [CHR 0x27] @ ''Z'' @ [CHR 0x27] @ '' '' @ arrow @ '' to B'' @ [CHR 0x0A] @
                ''B offers '' @ [CHR 0x27] @ ''Y'' @ [CHR 0x27] @ '' '' @ arrow @ '' to A''\<rparr>])"
  by code_simp

text \<open>The greedy strategy, on the same participants, returns no cycle.\<close>

lemma end_to_end_example_greedy: "find_exchange_cycles Greedy ring_abc = Inr ([], [])"
proof -
  have "build_graph ring_abc = Inr graph_abc" by code_simp
  moreover have "describe_cycles [] (request_map_of ring_abc) = Inr ([], [])"
    by (simp add: describe_cycles_def)
  ultimately show ?thesis
    by (simp add: find_exchange_cycles_def sample_cycles_greedy_empty)
qed

end
